theory Spec2Isabelle
  imports Main "HOL-Library.Word"
begin

unbundle bit_operations_syntax

section \<open>Data model of libhb/encavcodec.c\<close>

text \<open>
  C's \<open>int\<close> is a 32-bit word and \<open>int64_t\<close> a 64-bit word, both read as two's
  complement: arithmetic wraps, comparisons are the signed ones (\<open><s\<close>, \<open>\<le>s\<close>), and
  the conversion from \<open>int\<close> to \<open>int64_t\<close> is the sign extension \<open>scast\<close>.
\<close>

type_synonym c_int = "32 word"
type_synonym int64_t = "64 word"

text \<open>
  Modelled from the spec: the flag constants \<open>HB_FLAG_FRAMETYPE_REF\<close> and
  \<open>HB_FLAG_FRAMETYPE_KEY\<close> are declared in a header that is not part of the sources at
  hand; the spec gives the packet flags as the set \<open>{REFERENCE, KEY}\<close>, so the flag
  word is a set of flags and \<open>|=\<close> is \<open>insert\<close>.
\<close>

datatype frametype_flag = HB_FLAG_FRAMETYPE_REF | HB_FLAG_FRAMETYPE_KEY

text \<open>
  The fields of \<open>hb_buffer_t\<close> that the timing code reads or writes: the payload and
  the members of \<open>buf->s\<close>. Pixel planes and geometry are passed through untouched.
\<close>

record hb_buffer_t =
  b_data :: "8 word list"
  s_start :: int64_t
  s_stop :: int64_t
  s_duration :: int64_t
  s_renderOffset :: int64_t
  s_flags :: "frametype_flag set"
  s_frametype :: "8 word"
  s_new_chap :: c_int

text \<open>libavcodec's packet: payload, the echoed \<open>pts\<close> and the flag word.\<close>

record AVPacket =
  pkt_data :: "8 word list"
  pkt_pts :: int64_t
  pkt_flags :: c_int

text \<open>
  Modelled from the spec: \<open>AV_PKT_FLAG_KEY\<close> is a constant of libavcodec, whose headers
  are not among the sources; the spec only says that the encoder marks a packet as a
  keyframe. The mark is bit 0 of the flag word.
\<close>

definition AV_PKT_FLAG_KEY :: c_int where
  "AV_PKT_FLAG_KEY = 1"

text \<open>
  The fields of the \<open>AVFrame\<close> that \<open>Encode\<close> fills in besides the pixel planes and
  the quality.
\<close>

record AVFrame =
  pict_type :: c_int
  key_frame :: c_int
  frame_pts :: int64_t

text \<open>
  Modelled from the spec: \<open>AV_PICTURE_TYPE_NONE\<close> and \<open>AV_PICTURE_TYPE_I\<close> are
  constants of libavutil, whose headers are not among the sources; the spec speaks of a
  forced-keyframe request. A zero-initialised frame has the first and requests nothing.
\<close>

definition AV_PICTURE_TYPE_NONE :: c_int where
  "AV_PICTURE_TYPE_NONE = 0"

definition AV_PICTURE_TYPE_I :: c_int where
  "AV_PICTURE_TYPE_I = 1"

definition FRAME_INFO_SIZE :: c_int where
  "FRAME_INFO_SIZE = 32"

definition FRAME_INFO_MASK :: c_int where
  "FRAME_INFO_MASK = FRAME_INFO_SIZE - 1"

record frame_info_t =
  fi_start :: int64_t
  fi_duration :: int64_t

text \<open>
  The fields of \<open>hb_job_t\<close> used here. \<open>init_delay\<close> stands for
  \<open>job->config.init_delay\<close>, which receives a copy of \<open>dts_delay\<close>; the job is
  declared in a header that is not among the sources, and the field is given the width
  of \<open>dts_delay\<close>.
\<close>

record hb_job_t =
  areBframes :: c_int
  chapter_markers :: c_int
  init_delay :: int64_t

text \<open>
  Modelled from the spec: \<open>hb_chapter_queue_t\<close> with \<open>hb_chapter_enqueue\<close> and
  \<open>hb_chapter_dequeue\<close> is defined in another file of the library. The spec describes
  it as a FIFO of pending chapter marks: a mark is pushed for the frame that requested
  the boundary; a keyframe packet pops the oldest pending mark, if any, and receives its
  chapter boundary; with no mark pending the packet carries no chapter boundary. A mark
  remembers the chapter number and start of the frame handed to \<open>hb_chapter_enqueue\<close>.
\<close>

record chapter_mark =
  mark_new_chap :: c_int
  mark_start :: int64_t

type_synonym hb_chapter_queue_t = "chapter_mark list"

text \<open>
  Modelled from the spec: \<open>hb_chapter_enqueue\<close> (defined outside the sources) pushes a
  pending mark for the frame onto the FIFO.
\<close>

definition hb_chapter_enqueue :: "hb_chapter_queue_t \<Rightarrow> hb_buffer_t \<Rightarrow> hb_chapter_queue_t" where
  "hb_chapter_enqueue q buf = q @ [\<lparr>mark_new_chap = s_new_chap buf, mark_start = s_start buf\<rparr>]"

text \<open>
  Modelled from the spec: \<open>hb_chapter_dequeue\<close> (defined outside the sources) pops the
  oldest pending mark, if any, and attaches its chapter boundary to the packet; if no
  mark is pending, the packet is left as it is.
\<close>

definition hb_chapter_dequeue ::
  "hb_chapter_queue_t \<Rightarrow> hb_buffer_t \<Rightarrow> hb_chapter_queue_t \<times> hb_buffer_t" where
  "hb_chapter_dequeue q buf =
     (case q of
        [] \<Rightarrow> (q, buf)
      | item # rest \<Rightarrow> (rest, buf\<lparr>s_new_chap := mark_new_chap item\<rparr>))"

text \<open>
  \<open>hb_work_private_s\<close>. The array \<open>frame_info[FRAME_INFO_SIZE]\<close> is a function of
  the slot index; only the slots \<open>0 .. 31\<close> are ever addressed, because every index is
  masked with \<open>FRAME_INFO_MASK\<close>. \<open>hb_buffer_list_t\<close> is a HOL list: appending a chain
  of buffers is \<open>@\<close>, appending \<open>NULL\<close> appends nothing, and \<open>hb_buffer_list_clear\<close>
  returns the whole chain and leaves the list empty.
\<close>

record hb_work_private_t =
  job :: hb_job_t
  frameno_in :: c_int
  frameno_out :: c_int
  delay_list :: "hb_buffer_t list"
  dts_delay :: int64_t
  frame_info :: "nat \<Rightarrow> frame_info_t"
  chapter_queue :: hb_chapter_queue_t

section \<open>The frame info registry\<close>

definition save_frame_info :: "hb_work_private_t \<Rightarrow> hb_buffer_t \<Rightarrow> hb_work_private_t" where
  "save_frame_info pv in_buf =
     (let i = unat (frameno_in pv AND FRAME_INFO_MASK)
      in pv\<lparr>frame_info := (frame_info pv)
            (i := \<lparr>fi_start = s_start in_buf, fi_duration = s_stop in_buf - s_start in_buf\<rparr>)\<rparr>)"

definition get_frame_start :: "hb_work_private_t \<Rightarrow> int64_t \<Rightarrow> int64_t" where
  "get_frame_start pv frameno =
     (let i = unat (frameno AND scast FRAME_INFO_MASK)
      in fi_start (frame_info pv i))"

definition get_frame_duration :: "hb_work_private_t \<Rightarrow> int64_t \<Rightarrow> int64_t" where
  "get_frame_duration pv frameno =
     (let i = unat (frameno AND scast FRAME_INFO_MASK)
      in fi_duration (frame_info pv i))"

section \<open>The reorder delay\<close>

definition compute_dts_offset :: "hb_work_private_t \<Rightarrow> hb_buffer_t \<Rightarrow> hb_work_private_t" where
  "compute_dts_offset pv buf =
     (if areBframes (job pv) \<noteq> 0
      then (if frameno_in pv = areBframes (job pv)
            then pv\<lparr>dts_delay := s_start buf,
                    job := (job pv)\<lparr>init_delay := s_start buf\<rparr>\<rparr>
            else pv)
      else pv)"

text \<open>
  The \<open>while (buf != NULL)\<close> loop of \<open>process_delay_list\<close>: it walks the queued
  buffers, writes each \<open>renderOffset\<close> and counts \<open>frameno_out\<close> up.
\<close>

fun delay_walk ::
  "hb_work_private_t \<Rightarrow> hb_buffer_t list \<Rightarrow> hb_work_private_t \<times> hb_buffer_t list" where
  "delay_walk pv [] = (pv, [])"
| "delay_walk pv (buf # rest) =
     (let buf' =
            (if frameno_out pv <s areBframes (job pv)
             then (let start = get_frame_start pv (scast (frameno_out pv))
                   in buf\<lparr>s_renderOffset := start - dts_delay pv\<rparr>)
             else buf\<lparr>s_renderOffset :=
                        get_frame_start pv (scast (frameno_out pv - areBframes (job pv)))\<rparr>);
          (pv', out) = delay_walk (pv\<lparr>frameno_out := frameno_out pv + 1\<rparr>) rest
      in (pv', buf' # out))"

text \<open>
  \<open>process_delay_list\<close> returns a chain of buffers, or \<open>NULL\<close> (the empty list). Its
  argument may be \<open>NULL\<close> (\<open>None\<close>).
\<close>

definition process_delay_list ::
  "hb_work_private_t \<Rightarrow> hb_buffer_t option \<Rightarrow> hb_work_private_t \<times> hb_buffer_t list" where
  "process_delay_list pv buf =
     (if areBframes (job pv) \<noteq> 0
      then (let pv1 = pv\<lparr>delay_list := delay_list pv @ (case buf of None \<Rightarrow> [] | Some b \<Rightarrow> [b])\<rparr>
            in if frameno_in pv1 \<le>s areBframes (job pv1)
               then (pv1, [])
               else (let (pv2, out) = delay_walk pv1 (delay_list pv1)
                     in (pv2\<lparr>delay_list := []\<rparr>, out)))
      else (case buf of
              Some b \<Rightarrow> (pv, [b\<lparr>s_renderOffset := s_start b\<rparr>])
            | None \<Rightarrow> (pv, [])))"

section \<open>The packet assembly loop\<close>

text \<open>
  The encoder is the environment. One answer of \<open>avcodec_receive_packet\<close> is either
  \<open>AVERROR(EAGAIN)\<close>, \<open>AVERROR_EOF\<close>, or any other return value together with the
  packet as the call left it (a negative value is logged and the packet is processed all
  the same). A call of \<open>get_packets\<close> consumes a script of such answers; when the script
  ends without \<open>EAGAIN\<close> or \<open>AVERROR_EOF\<close> the loop has not returned (\<open>None\<close>).

  \<open>hb_buffer_init\<close> is defined outside this file; it is a parameter that maps the
  requested size to the fresh buffer.
\<close>

datatype recv = EAGAIN | AVERROR_EOF | Received c_int AVPacket

text \<open>
  One pass through the body of the \<open>while (1)\<close> loop, after the two exits, in two
  parts: \<open>resolve_packet\<close> builds the output buffer from the packet, the registry and
  the chapter queue; \<open>packet_step\<close> hands it to \<open>process_delay_list\<close>.
\<close>

definition resolve_packet ::
  "(nat \<Rightarrow> hb_buffer_t) \<Rightarrow> hb_work_private_t \<Rightarrow> AVPacket \<Rightarrow> hb_chapter_queue_t \<times> hb_buffer_t" where
  "resolve_packet hb_buffer_init pv pkt =
     (let out0 = (hb_buffer_init (length (pkt_data pkt)))\<lparr>b_data := pkt_data pkt\<rparr>;
          frameno = pkt_pts pkt;
          out1 = out0\<lparr>s_start := get_frame_start pv frameno\<rparr>;
          out2 = out1\<lparr>s_duration := get_frame_duration pv frameno\<rparr>;
          out3 = out2\<lparr>s_stop := s_stop out2 + s_duration out2\<rparr>;
          out4 = out3\<lparr>s_flags := {HB_FLAG_FRAMETYPE_REF}, s_frametype := 0\<rparr>
      in if pkt_flags pkt AND AV_PKT_FLAG_KEY \<noteq> 0
         then hb_chapter_dequeue (chapter_queue pv)
                (out4\<lparr>s_flags := insert HB_FLAG_FRAMETYPE_KEY (s_flags out4)\<rparr>)
         else (chapter_queue pv, out4))"

definition packet_step ::
  "(nat \<Rightarrow> hb_buffer_t) \<Rightarrow> hb_work_private_t \<Rightarrow> AVPacket \<Rightarrow> hb_work_private_t \<times> hb_buffer_t list" where
  "packet_step hb_buffer_init pv pkt =
     (let (q, out) = resolve_packet hb_buffer_init pv pkt
      in process_delay_list (pv\<lparr>chapter_queue := q\<rparr>) (Some out))"

fun get_packets ::
  "(nat \<Rightarrow> hb_buffer_t) \<Rightarrow> hb_work_private_t \<Rightarrow> hb_buffer_t list \<Rightarrow> recv list
     \<Rightarrow> (hb_work_private_t \<times> hb_buffer_t list) option" where
  "get_packets hb_buffer_init pv list [] = None"
| "get_packets hb_buffer_init pv list (EAGAIN # rs) = Some (pv, list)"
| "get_packets hb_buffer_init pv list (AVERROR_EOF # rs) = Some (pv, list)"
| "get_packets hb_buffer_init pv list (Received ret pkt # rs) =
     (let (pv', out) = packet_step hb_buffer_init pv pkt
      in get_packets hb_buffer_init pv' (list @ out) rs)"

text \<open>
  \<open>Encode\<close>, in two parts. \<open>submit_frame\<close> is everything up to the call of
  \<open>avcodec_send_frame\<close>: the chapter request, the registry entry, the reorder delay and
  the frame number; it returns the frame handed to the encoder, so that a forced keyframe
  is visible. \<open>Encode\<close> then takes \<open>ret\<close>, the return value of
  \<open>avcodec_send_frame\<close>: a negative value returns at once, otherwise the packets are
  drained. The first-pass statistics file is not modelled.
\<close>

definition submit_frame :: "hb_work_private_t \<Rightarrow> hb_buffer_t \<Rightarrow> hb_work_private_t \<times> AVFrame" where
  "submit_frame pv in_buf =
     (let frame0 = \<lparr>pict_type = AV_PICTURE_TYPE_NONE, key_frame = 0, frame_pts = 0\<rparr>;
          (pv1, frame1) =
            (if 0 <s s_new_chap in_buf \<and> chapter_markers (job pv) \<noteq> 0
             then (pv\<lparr>chapter_queue := hb_chapter_enqueue (chapter_queue pv) in_buf\<rparr>,
                   frame0\<lparr>pict_type := AV_PICTURE_TYPE_I, key_frame := 1\<rparr>)
             else (pv, frame0));
          pv2 = save_frame_info pv1 in_buf;
          pv3 = compute_dts_offset pv2 in_buf;
          frame2 = frame1\<lparr>frame_pts := scast (frameno_in pv3)\<rparr>;
          pv4 = pv3\<lparr>frameno_in := frameno_in pv3 + 1\<rparr>
      in (pv4, frame2))"

definition Encode ::
  "(nat \<Rightarrow> hb_buffer_t) \<Rightarrow> hb_work_private_t \<Rightarrow> hb_buffer_t \<Rightarrow> c_int \<Rightarrow> recv list
     \<Rightarrow> hb_buffer_t list \<Rightarrow> (hb_work_private_t \<times> hb_buffer_t list \<times> AVFrame) option" where
  "Encode hb_buffer_init pv in_buf ret script list =
     (let (pv4, frame) = submit_frame pv in_buf
      in if ret <s 0
         then Some (pv4, list, frame)
         else (case get_packets hb_buffer_init pv4 list script of
                 None \<Rightarrow> None
               | Some (pv5, list') \<Rightarrow> Some (pv5, list', frame)))"

definition Flush ::
  "(nat \<Rightarrow> hb_buffer_t) \<Rightarrow> hb_work_private_t \<Rightarrow> recv list \<Rightarrow> hb_buffer_t list
     \<Rightarrow> (hb_work_private_t \<times> hb_buffer_t list) option" where
  "Flush hb_buffer_init pv script list = get_packets hb_buffer_init pv list script"

section \<open>A whole stream\<close>

text \<open>
  \<open>encavcodecWork\<close> starts each call with an empty list, runs \<open>Flush\<close> when the
  input buffer carries the end-of-stream flag and \<open>Encode\<close> otherwise, and hands the
  list to the caller. A stream is the sequence of these calls; \<open>run\<close> collects the
  packets the caller receives, in order. The end-of-stream marker that
  \<open>encavcodecWork\<close> appends after \<open>Flush\<close> is not a packet and is left out.
\<close>

datatype call = Submit hb_buffer_t c_int "recv list" | Finish "recv list"

fun run ::
  "(nat \<Rightarrow> hb_buffer_t) \<Rightarrow> hb_work_private_t \<Rightarrow> call list
     \<Rightarrow> (hb_work_private_t \<times> hb_buffer_t list) option" where
  "run hb_buffer_init pv [] = Some (pv, [])"
| "run hb_buffer_init pv (Submit in_buf ret script # cs) =
     (case Encode hb_buffer_init pv in_buf ret script [] of
        None \<Rightarrow> None
      | Some (pv', out, frame) \<Rightarrow>
          (case run hb_buffer_init pv' cs of
             None \<Rightarrow> None
           | Some (pv'', outs) \<Rightarrow> Some (pv'', out @ outs)))"
| "run hb_buffer_init pv (Finish script # cs) =
     (case Flush hb_buffer_init pv script [] of
        None \<Rightarrow> None
      | Some (pv', out) \<Rightarrow>
          (case run hb_buffer_init pv' cs of
             None \<Rightarrow> None
           | Some (pv'', outs) \<Rightarrow> Some (pv'', out @ outs)))"

text \<open>
  The private data as \<open>encavcodecInit\<close> leaves it: \<open>calloc\<close> zeroes every field,
  the job is stored, the chapter queue and the delay list start empty.
\<close>

definition init_private :: "hb_job_t \<Rightarrow> hb_work_private_t" where
  "init_private j =
     \<lparr>job = j, frameno_in = 0, frameno_out = 0, delay_list = [], dts_delay = 0,
      frame_info = (\<lambda>i. \<lparr>fi_start = 0, fi_duration = 0\<rparr>), chapter_queue = []\<rparr>"

text \<open>
  The render offset as one pass of the loop in \<open>process_delay_list\<close> computes it when
  \<open>frameno_out\<close> is \<open>k\<close>, through \<open>get_frame_start\<close>.
\<close>

definition walk_render_offset :: "hb_work_private_t \<Rightarrow> c_int \<Rightarrow> int64_t" where
  "walk_render_offset pv k =
     (if k <s areBframes (job pv)
      then get_frame_start pv (scast k) - dts_delay pv
      else get_frame_start pv (scast (k - areBframes (job pv))))"

text \<open>
  The render offset the spec assigns to the packet with cumulative output index \<open>k\<close>,
  stated on the registry itself: the start stored in slot \<open>k mod 32\<close> less \<open>dts_delay\<close>
  below the reorder depth, the start stored in slot \<open>(k - depth) mod 32\<close> from there on.
\<close>

definition registry_start :: "hb_work_private_t \<Rightarrow> c_int \<Rightarrow> int64_t" where
  "registry_start pv seq = fi_start (frame_info pv (nat (sint seq mod 32)))"

definition spec_render_offset :: "hb_work_private_t \<Rightarrow> c_int \<Rightarrow> int64_t" where
  "spec_render_offset pv k =
     (if k <s areBframes (job pv)
      then registry_start pv k - dts_delay pv
      else registry_start pv (k - areBframes (job pv)))"

text \<open>The three timestamps of a buffer that the stop-time claim relates.\<close>

definition stamps :: "hb_buffer_t \<Rightarrow> int64_t \<times> int64_t \<times> int64_t" where
  "stamps b = (s_start b, s_duration b, s_stop b)"

text \<open>A frame with the given start, stop and chapter number, and a packet answer.\<close>

definition frame_of :: "int64_t \<Rightarrow> int64_t \<Rightarrow> c_int \<Rightarrow> hb_buffer_t" where
  "frame_of start stop chap =
     \<lparr>b_data = [], s_start = start, s_stop = stop, s_duration = 0, s_renderOffset = 0,
      s_flags = {}, s_frametype = 0, s_new_chap = chap\<rparr>"

definition packet_of :: "int64_t \<Rightarrow> c_int \<Rightarrow> recv" where
  "packet_of pts flags = Received 0 \<lparr>pkt_data = [], pkt_pts = pts, pkt_flags = flags\<rparr>"

text \<open>
  What a stream hands to the encoder and gets back: the packets a script delivers before
  the loop leaves, whether the script makes the loop leave at all, the packets drained
  over a sequence of calls (none after a failed \<open>avcodec_send_frame\<close>), and the frames
  submitted.
\<close>

fun received :: "recv list \<Rightarrow> AVPacket list" where
  "received [] = []"
| "received (EAGAIN # rs) = []"
| "received (AVERROR_EOF # rs) = []"
| "received (Received ret pkt # rs) = pkt # received rs"

fun terminated :: "recv list \<Rightarrow> bool" where
  "terminated [] = False"
| "terminated (EAGAIN # rs) = True"
| "terminated (AVERROR_EOF # rs) = True"
| "terminated (Received ret pkt # rs) = terminated rs"

fun answered :: "call \<Rightarrow> bool" where
  "answered (Submit in_buf ret script) = (ret <s 0 \<or> terminated script)"
| "answered (Finish script) = terminated script"

fun drained :: "call list \<Rightarrow> AVPacket list" where
  "drained [] = []"
| "drained (Submit in_buf ret script # cs) =
     (if ret <s 0 then [] else received script) @ drained cs"
| "drained (Finish script # cs) = received script @ drained cs"

fun submitted :: "call list \<Rightarrow> hb_buffer_t list" where
  "submitted [] = []"
| "submitted (Submit in_buf ret script # cs) = in_buf # submitted cs"
| "submitted (Finish script # cs) = submitted cs"

text \<open>Concrete inputs for the worked examples below.\<close>

definition zero_buffer :: "nat \<Rightarrow> hb_buffer_t" where
  "zero_buffer n = frame_of 0 0 0"

definition job_of :: "c_int \<Rightarrow> c_int \<Rightarrow> hb_job_t" where
  "job_of depth markers = \<lparr>areBframes = depth, chapter_markers = markers, init_delay = 0\<rparr>"

definition held_state :: hb_work_private_t where
  "held_state = (init_private (job_of 3 1))
     \<lparr>frameno_in := 4,
      delay_list := [frame_of 1000 4000 0, frame_of 4000 7000 0, frame_of 7000 10000 0],
      dts_delay := 10000,
      frame_info := (\<lambda>i. \<lparr>fi_start = 1000 + 3000 * of_nat i, fi_duration = 3000\<rparr>)\<rparr>"

text \<open>Start and render offset of a buffer; a three-frame stream with in-order packets.\<close>

definition offsets :: "hb_buffer_t \<Rightarrow> int64_t \<times> int64_t" where
  "offsets b = (s_start b, s_renderOffset b)"

definition three_calls :: "call list" where
 "three_calls =
     [Submit (frame_of 0 3000 1) 0 [packet_of 0 1, EAGAIN],
      Submit (frame_of 3000 6000 0) 0 [packet_of 1 0, EAGAIN],
      Submit (frame_of 6000 9000 0) 0 [packet_of 2 0, EAGAIN],
      Finish [AVERROR_EOF]]"

definition three_frames :: "c_int \<Rightarrow> c_int \<Rightarrow> (hb_work_private_t \<times> hb_buffer_t list) option" where
 "three_frames d cm = run zero_buffer (init_private (job_of d cm)) three_calls"

text \<open>Further example inputs: two frames, a short stream, chapter marks.\<close>

definition two_calls :: "call list" where
  "two_calls =
     [Submit (frame_of 0 3000 0) 0 [packet_of 0 1, EAGAIN],
      Submit (frame_of 3000 6000 0) 0 [packet_of 1 0, EAGAIN]]"

definition short_stream :: "call list" where
  "short_stream =
     [Submit (frame_of 0 3000 0) 0 [EAGAIN],
      Submit (frame_of 3000 6000 0) 0 [EAGAIN],
      Submit (frame_of 6000 9000 0) 0 [EAGAIN],
      Submit (frame_of 9000 12000 0) 0 [EAGAIN],
      Submit (frame_of 12000 15000 0) 0 [EAGAIN],
      Finish [packet_of 0 1, packet_of 1 0, packet_of 2 0, packet_of 3 0, packet_of 4 0,
              AVERROR_EOF]]"

definition marked_frame :: hb_buffer_t where
  "marked_frame = frame_of 0 3000 1"

definition chapter_calls :: "call list" where
  "chapter_calls =
     [Submit (frame_of 0 3000 1) 0 [packet_of 0 0, EAGAIN],
      Submit (frame_of 3000 6000 0) 0 [packet_of 1 0, EAGAIN],
      Submit (frame_of 6000 9000 0) 0 [packet_of 2 1, EAGAIN],
      Submit (frame_of 9000 12000 0) 0 [packet_of 3 0, EAGAIN],
      Submit (frame_of 12000 15000 0) 0 [packet_of 4 1, EAGAIN]]"

definition pending_state :: hb_work_private_t where
  "pending_state = fst (submit_frame (init_private (job_of 0 1)) marked_frame)"

definition key_packet :: AVPacket where
  "key_packet = \<lparr>pkt_data = [], pkt_pts = 0, pkt_flags = 1\<rparr>"

definition plain_packet :: AVPacket where
  "plain_packet = \<lparr>pkt_data = [], pkt_pts = 0, pkt_flags = 0\<rparr>"

text \<open>
  What the render offsets need from the encoder. \<open>lookup_seq d k\<close> is the sequence
  number whose start the packet with output index \<open>k\<close> receives (less \<open>dts_delay\<close>
  below the depth). A packet conforms, in the state in which it is drained, when it
  echoes the number \<open>p\<close> of a frame already submitted and at most 32 frames back, \<open>p\<close>
  is not more than the depth behind the packet's output index \<open>k\<close>, the output counter
  does not overflow, and, if packets are released now, every sequence number looked up for
  a released packet is at most 32 frames back as well. A script and a stream conform when
  every packet does, in the state the model has reached. \<open>stream_inv\<close> relates the state
  to the starts \<open>ss\<close> of the frames submitted so far; it is used in proofs only.
\<close>

definition lookup_seq :: "int \<Rightarrow> int \<Rightarrow> int" where
  "lookup_seq d k = (if k < d then k else k - d)"

definition packet_conforms :: "hb_work_private_t \<Rightarrow> AVPacket \<Rightarrow> bool" where
  "packet_conforms pv pkt =
     (let d = sint (areBframes (job pv)); n = sint (frameno_in pv); r = sint (frameno_out pv);
          k = r + int (length (delay_list pv)); p = sint (pkt_pts pkt)
      in 0 \<le> p \<and> p < n \<and> n \<le> p + 32 \<and> k - d \<le> p \<and> k < 2 ^ 31 - 1
         \<and> (d < n \<longrightarrow> (\<forall>j \<in> set [r..k]. n \<le> lookup_seq d j + 32)))"

fun script_conforms :: "(nat \<Rightarrow> hb_buffer_t) \<Rightarrow> hb_work_private_t \<Rightarrow> recv list \<Rightarrow> bool" where
  "script_conforms init pv [] = True"
| "script_conforms init pv (EAGAIN # rs) = True"
| "script_conforms init pv (AVERROR_EOF # rs) = True"
| "script_conforms init pv (Received ret pkt # rs) =
     (packet_conforms pv pkt \<and> script_conforms init (fst (packet_step init pv pkt)) rs)"

fun stream_conforms :: "(nat \<Rightarrow> hb_buffer_t) \<Rightarrow> hb_work_private_t \<Rightarrow> call list \<Rightarrow> bool" where
  "stream_conforms init pv [] = True"
| "stream_conforms init pv (Submit in_buf ret script # cs) =
     (let pv4 = fst (submit_frame pv in_buf)
      in if ret <s 0 then stream_conforms init pv4 cs
         else script_conforms init pv4 script \<and>
              (case get_packets init pv4 [] script of
                 None \<Rightarrow> True
               | Some (pv5, out) \<Rightarrow> stream_conforms init pv5 cs))"
| "stream_conforms init pv (Finish script # cs) =
     (script_conforms init pv script \<and>
      (case get_packets init pv [] script of
         None \<Rightarrow> True
       | Some (pv5, out) \<Rightarrow> stream_conforms init pv5 cs))"

definition dts_le_pts :: "hb_buffer_t \<Rightarrow> bool" where
  "dts_le_pts b = (s_renderOffset b \<le>s s_start b)"

definition stream_inv :: "int64_t list \<Rightarrow> hb_work_private_t \<Rightarrow> bool" where
  "stream_inv ss pv \<longleftrightarrow>
     sint (frameno_in pv) = int (length ss)
     \<and> 0 \<le> sint (frameno_out pv)
     \<and> 0 < sint (areBframes (job pv))
     \<and> (\<forall>j < length ss. length ss \<le> j + 32 \<longrightarrow> fi_start (frame_info pv (j mod 32)) = ss ! j)
     \<and> (sint (areBframes (job pv)) < int (length ss) \<longrightarrow>
          dts_delay pv = ss ! nat (sint (areBframes (job pv))))
     \<and> (\<forall>i < length (delay_list pv). \<exists>p < length ss.
          s_start (delay_list pv ! i) = ss ! p
          \<and> sint (frameno_out pv) + int i - sint (areBframes (job pv)) \<le> int p)"

text \<open>Streams with reordered packets, with negative starts, with too deep a reordering.\<close>

definition reordered_calls :: "call list" where
  "reordered_calls =
     [Submit (frame_of 0 3000 0) 0 [EAGAIN],
      Submit (frame_of 3000 6000 0) 0 [packet_of 0 1, EAGAIN],
      Submit (frame_of 6000 9000 0) 0 [packet_of 2 0, EAGAIN],
      Finish [packet_of 1 0, AVERROR_EOF]]"

definition negative_calls :: "call list" where
  "negative_calls =
     [Submit (frame_of (- 6000) (- 3000) 0) 0 [EAGAIN],
      Submit (frame_of (- 3000) 0 0) 0 [packet_of 0 1, EAGAIN],
      Finish [packet_of 1 0, AVERROR_EOF]]"

definition deep_reorder_calls :: "call list" where
  "deep_reorder_calls =
     [Submit (frame_of 0 3000 0) 0 [EAGAIN],
      Submit (frame_of 3000 6000 0) 0 [packet_of 0 1, EAGAIN],
      Submit (frame_of 6000 9000 0) 0 [EAGAIN],
      Submit (frame_of 9000 12000 0) 0 [packet_of 3 0, EAGAIN],
      Finish [packet_of 2 0, packet_of 1 0, AVERROR_EOF]]"

section \<open>Words and slots\<close>

lemma mask64: "(scast FRAME_INFO_MASK :: 64 word) = mask 5"
  by (simp add: FRAME_INFO_MASK_def FRAME_INFO_SIZE_def mask_eq_exp_minus_1)

lemma mask32: "FRAME_INFO_MASK = mask 5"
  by (simp add: FRAME_INFO_MASK_def FRAME_INFO_SIZE_def mask_eq_exp_minus_1)

lemma slot64: "unat ((x::64 word) AND scast FRAME_INFO_MASK) = unat x mod 32"
  by (simp add: mask64 unsigned_take_bit_eq take_bit_eq_mod unat_mod flip: take_bit_eq_mask)

lemma slot32: "unat ((x::32 word) AND FRAME_INFO_MASK) = unat x mod 32"
  by (simp add: mask32 unsigned_take_bit_eq take_bit_eq_mod unat_mod flip: take_bit_eq_mask)

lemma slot_scast:
  "unat ((scast (n::32 word) :: 64 word) AND scast FRAME_INFO_MASK) = unat (n AND FRAME_INFO_MASK)"
  apply (subst mask64)
  apply (subst mask32)
  apply (simp flip: take_bit_eq_mask add: unsigned_take_bit_eq)
  apply (rule bit_eqI)
  apply (auto simp add: bit_take_bit_iff bit_unsigned_iff bit_signed_iff)
  done

lemma uint_and_mask5: "uint ((x::64 word) AND mask 5) = uint x mod 32"
  by (simp add: unsigned_take_bit_eq take_bit_eq_mod uint_mod flip: take_bit_eq_mask)

lemma uint_shift32: "uint ((x::64 word) - 32 * m) mod 32 = uint x mod 32"
proof -
  have d: "(32::int) dvd 2 ^ 64" by simp
  have "uint (x - 32 * m) mod 32 = ((uint x - uint (32 * m)) mod 2 ^ 64) mod 32"
    by (simp add: uint_word_ariths)
  also have "\<dots> = (uint x - uint (32 * m)) mod 32"
    using d by (rule mod_mod_cancel)
  also have "uint (32 * m) = (32 * uint m) mod 2 ^ 64"
    by (simp add: uint_word_ariths)
  also have "(uint x - (32 * uint m) mod 2 ^ 64) mod 32
      = (uint x - ((32 * uint m) mod 2 ^ 64) mod 32) mod 32"
    by (simp add: mod_diff_right_eq)
  also have "((32 * uint m) mod 2 ^ 64) mod 32 = (32 * uint m) mod 32"
    using d by (rule mod_mod_cancel)
  finally show ?thesis by simp
qed

lemma slot_shift:
  "((x::64 word) - 32 * m) AND scast FRAME_INFO_MASK = x AND scast FRAME_INFO_MASK"
  apply (subst mask64)+
  apply (rule word_uint_eqI)
  apply (simp only: uint_and_mask5 uint_shift32)
  done

section \<open>The registry\<close>

lemma get_frame_start_slot:
  "get_frame_start pv seq = fi_start (frame_info pv (unat seq mod 32))"
  by (simp add: get_frame_start_def slot64)

lemma get_frame_duration_slot:
  "get_frame_duration pv seq = fi_duration (frame_info pv (unat seq mod 32))"
  by (simp add: get_frame_duration_def slot64)

lemma save_then_lookup_slot:
  "frame_info (save_frame_info pv in_buf)
     (unat ((scast (frameno_in pv) - 32 * m :: 64 word) AND scast FRAME_INFO_MASK))
   = \<lparr>fi_start = s_start in_buf, fi_duration = s_stop in_buf - s_start in_buf\<rparr>"
  by (simp add: save_frame_info_def slot_shift slot_scast)

lemma slot_signed: "unat (seq :: 64 word) mod 32 = nat (sint seq mod 32)"
proof -
  have d: "(32::int) dvd 2 ^ 64" by simp
  have "uint seq mod 32 = (sint seq mod 2 ^ 64) mod 32"
    by (simp add: uint_sint take_bit_eq_mod)
  also have "\<dots> = sint seq mod 32" using d by (rule mod_mod_cancel)
  finally have "nat (uint seq mod 32) = nat (sint seq mod 32)" by simp
  moreover have "nat (uint seq mod 32) = unat seq mod 32"
    by (simp add: nat_mod_distrib)
  ultimately show ?thesis by simp
qed

lemma lookup_start_after_save:
  "get_frame_start (save_frame_info pv in_buf) (scast (frameno_in pv) - 32 * m) = s_start in_buf"
  by (simp add: get_frame_start_def save_then_lookup_slot)

lemma lookup_duration_after_save:
  "get_frame_duration (save_frame_info pv in_buf) (scast (frameno_in pv) - 32 * m)
     = s_stop in_buf - s_start in_buf"
  by (simp add: get_frame_duration_def save_then_lookup_slot)

text \<open>
  C10. Registry lookups are total on 64-bit sequence numbers: \<open>get_frame_start\<close> and
  \<open>get_frame_duration\<close> return the contents of slot \<open>seq mod 32\<close> (of the signed
  value, which is also the unsigned value modulo 32), with no check and no error path.
  Hence, once a frame has been recorded, the lookup of any sequence number a multiple of
  32 before it returns the timing of that newer frame.
\<close>

theorem registry_lookup_total:
  "get_frame_start pv seq = fi_start (frame_info pv (nat (sint seq mod 32)))
   \<and> get_frame_duration pv seq = fi_duration (frame_info pv (nat (sint seq mod 32)))
   \<and> nat (sint seq mod 32) = unat seq mod 32
   \<and> get_frame_start (save_frame_info pv in_buf) (scast (frameno_in pv) - 32 * m)
       = s_start in_buf
   \<and> get_frame_duration (save_frame_info pv in_buf) (scast (frameno_in pv) - 32 * m)
       = s_stop in_buf - s_start in_buf"
  by (simp only: slot_signed [symmetric] get_frame_start_slot [symmetric]
        get_frame_duration_slot [symmetric] lookup_start_after_save
        lookup_duration_after_save simp_thms)

section \<open>Render offsets by output index\<close>

lemma get_frame_start_frameno_out [simp]:
  "get_frame_start (pv\<lparr>frameno_out := k\<rparr>) x = get_frame_start pv x"
  by (simp add: get_frame_start_def)

lemma walk_render_offset_frameno_out [simp]:
  "walk_render_offset (pv\<lparr>frameno_out := k\<rparr>) x = walk_render_offset pv x"
  by (simp add: walk_render_offset_def)

lemma delay_walk_spec:
  "delay_walk pv bs = (pv', out) \<Longrightarrow>
     pv' = pv\<lparr>frameno_out := frameno_out pv + of_nat (length bs)\<rparr> \<and>
     length out = length bs \<and>
     (\<forall>j < length bs.
        out ! j = (bs ! j)\<lparr>s_renderOffset := walk_render_offset pv (frameno_out pv + of_nat j)\<rparr>)"
proof (induction bs arbitrary: pv pv' out)
  case Nil
  then show ?case by simp
next
  case (Cons b bs)
  obtain pv1 out1 where w: "delay_walk (pv\<lparr>frameno_out := frameno_out pv + 1\<rparr>) bs = (pv1, out1)"
    by (cases "delay_walk (pv\<lparr>frameno_out := frameno_out pv + 1\<rparr>) bs")
  from Cons.IH [OF w] have ih:
    "pv1 = pv\<lparr>frameno_out := frameno_out pv + 1 + of_nat (length bs)\<rparr>"
    "length out1 = length bs"
    "\<And>j. j < length bs \<Longrightarrow>
       out1 ! j = (bs ! j)\<lparr>s_renderOffset := walk_render_offset pv (frameno_out pv + 1 + of_nat j)\<rparr>"
    by simp_all
  from Cons.prems w have pv': "pv' = pv1"
    and out: "out = b\<lparr>s_renderOffset := walk_render_offset pv (frameno_out pv)\<rparr> # out1"
    by (auto simp: walk_render_offset_def Let_def)
  show ?case
  proof (intro conjI allI impI)
    show "pv' = pv\<lparr>frameno_out := frameno_out pv + of_nat (length (b # bs))\<rparr>"
      using pv' ih(1) by (simp add: add.assoc)
    show "length out = length (b # bs)" using out ih(2) by simp
    fix j assume "j < length (b # bs)"
    then show "out ! j =
        ((b # bs) ! j)\<lparr>s_renderOffset := walk_render_offset pv (frameno_out pv + of_nat j)\<rparr>"
      using out ih(3) by (cases j) (simp_all add: add.assoc)
  qed
qed

lemma process_delay_list_release:
  assumes d: "0 <s areBframes (job pv)"
    and known: "\<not> frameno_in pv \<le>s areBframes (job pv)"
    and run: "process_delay_list pv (Some buf) = (pv', out)"
  shows "length out = length (delay_list pv) + 1
    \<and> delay_list pv' = []
    \<and> frameno_out pv' = frameno_out pv + of_nat (length out)
    \<and> (\<forall>j < length out.
          out ! j = ((delay_list pv @ [buf]) ! j)
                      \<lparr>s_renderOffset := walk_render_offset pv (frameno_out pv + of_nat j)\<rparr>)"
proof -
  let ?pv1 = "pv\<lparr>delay_list := delay_list pv @ [buf]\<rparr>"
  from d have nz: "areBframes (job pv) \<noteq> 0" by auto
  obtain pv2 out2 where w: "delay_walk ?pv1 (delay_list pv @ [buf]) = (pv2, out2)"
    by (cases "delay_walk ?pv1 (delay_list pv @ [buf])")
  from run nz known w have r: "pv' = pv2\<lparr>delay_list := []\<rparr>" "out = out2"
    by (auto simp: process_delay_list_def Let_def)
  from delay_walk_spec [OF w] show ?thesis
    using r by (simp add: walk_render_offset_def get_frame_start_def)
qed


lemmas demo_defs = word_sless_alt word_sle_eq zero_buffer_def job_of_def held_state_def
  init_private_def frame_of_def packet_of_def

lemma slot_signed32: "unat (seq :: 32 word) mod 32 = nat (sint seq mod 32)"
proof -
  have d: "(32::int) dvd 2 ^ 32" by simp
  have "uint seq mod 32 = (sint seq mod 2 ^ 32) mod 32"
    by (simp add: uint_sint take_bit_eq_mod)
  also have "\<dots> = sint seq mod 32" using d by (rule mod_mod_cancel)
  finally have "nat (uint seq mod 32) = nat (sint seq mod 32)" by simp
  moreover have "nat (uint seq mod 32) = unat seq mod 32"
    by (simp add: nat_mod_distrib)
  ultimately show ?thesis by simp
qed

lemma get_frame_start_scast:
  "get_frame_start pv (scast seq) = registry_start pv seq"
  by (simp add: get_frame_start_def registry_start_def slot_scast slot32 slot_signed32)

lemma walk_render_offset_registry:
  "walk_render_offset pv k = spec_render_offset pv k"
  by (simp add: walk_render_offset_def spec_render_offset_def get_frame_start_scast)

text \<open>
  C5. With a reorder depth \<open>d > 0\<close> and \<open>dts_delay\<close> known (more than \<open>d\<close> frames
  submitted), \<open>process_delay_list\<close> releases the held buffers followed by the new one, and
  the buffer at cumulative output index \<open>k\<close> (the value of \<open>frameno_out\<close> when it is
  reached) receives as render offset the start stored in registry slot \<open>k mod 32\<close> less
  \<open>dts_delay\<close> for \<open>k < d\<close>, and the start stored in registry slot \<open>(k - d) mod 32\<close>
  for \<open>k \<ge> d\<close>; nothing else about the buffer changes. As the held list is empty
  afterwards and \<open>frameno_out\<close> has advanced by the number released, the same holds for
  every later packet.
\<close>

theorem render_offset_by_output_index:
  assumes d: "0 <s areBframes (job pv)"
    and known: "\<not> frameno_in pv \<le>s areBframes (job pv)"
    and run: "process_delay_list pv (Some buf) = (pv', out)"
  shows "length out = length (delay_list pv) + 1
    \<and> delay_list pv' = []
    \<and> frameno_out pv' = frameno_out pv + of_nat (length out)
    \<and> (\<forall>j < length out.
          out ! j = ((delay_list pv @ [buf]) ! j)
            \<lparr>s_renderOffset :=
               (if frameno_out pv + of_nat j <s areBframes (job pv)
                then fi_start (frame_info pv (nat (sint (frameno_out pv + of_nat j) mod 32)))
                       - dts_delay pv
                else fi_start (frame_info pv
                       (nat (sint (frameno_out pv + of_nat j - areBframes (job pv)) mod 32))))\<rparr>)"
  using process_delay_list_release [OF assms]
  by (simp add: walk_render_offset_registry spec_render_offset_def registry_start_def)

theorem render_offset_by_output_index_witness:
  "0 <s areBframes (job held_state)
   \<and> \<not> frameno_in held_state \<le>s areBframes (job held_state)
   \<and> map s_renderOffset (snd (process_delay_list held_state (Some (frame_of 10000 13000 0))))
       = [- 9000, - 6000, - 3000, 1000]"
proof -
  have d: "0 <s areBframes (job held_state)" by (simp add: demo_defs)
  have k: "\<not> frameno_in held_state \<le>s areBframes (job held_state)" by (simp add: demo_defs)
  obtain pv' out where
    r: "process_delay_list held_state (Some (frame_of 10000 13000 0)) = (pv', out)"
    by (cases "process_delay_list held_state (Some (frame_of 10000 13000 0))")
  from render_offset_by_output_index [OF d k r]
  have len: "length out = 4"
    and el: "\<And>j. j < 4 \<Longrightarrow> s_renderOffset (out ! j) =
       (if (of_nat j :: c_int) <s 3
        then fi_start (frame_info held_state (nat (sint (of_nat j :: c_int) mod 32))) - 10000
        else fi_start (frame_info held_state (nat (sint (of_nat j - 3 :: c_int) mod 32))))"
    by (simp_all add: held_state_def init_private_def job_of_def)
  have "out = [out ! 0, out ! 1, out ! 2, out ! 3]"
    using len by (auto simp: list_eq_iff_nth_eq less_Suc_eq numeral_eq_Suc)
  then have "map s_renderOffset out =
      [s_renderOffset (out ! 0), s_renderOffset (out ! 1), s_renderOffset (out ! 2),
       s_renderOffset (out ! 3)]"
    by (metis list.simps(8) list.simps(9))
  also have "\<dots> = [- 9000, - 6000, - 3000, 1000]"
    using el [of 0] el [of 1] el [of 2] el [of 3]
    by (simp add: demo_defs)
  finally show ?thesis using d k r by simp
qed

section \<open>What the drain loop leaves alone\<close>

lemma delay_walk_state:
  "delay_walk pv bs = (pv', out) \<Longrightarrow> pv' = pv\<lparr>frameno_out := frameno_out pv + of_nat (length bs)\<rparr>"
  by (drule delay_walk_spec) simp

lemma process_delay_list_static:
  assumes "process_delay_list pv buf = (pv', out)"
  shows "job pv' = job pv \<and> frameno_in pv' = frameno_in pv \<and> dts_delay pv' = dts_delay pv
    \<and> frame_info pv' = frame_info pv \<and> chapter_queue pv' = chapter_queue pv"
proof (cases "areBframes (job pv) \<noteq> 0 \<and> \<not> frameno_in pv \<le>s areBframes (job pv)")
  case True
  let ?pv1 = "pv\<lparr>delay_list := delay_list pv @ (case buf of None \<Rightarrow> [] | Some b \<Rightarrow> [b])\<rparr>"
  obtain pv2 out2 where w: "delay_walk ?pv1 (delay_list ?pv1) = (pv2, out2)"
    by (cases "delay_walk ?pv1 (delay_list ?pv1)")
  from assms True w have "pv' = pv2\<lparr>delay_list := []\<rparr>"
    by (auto simp: process_delay_list_def Let_def)
  with delay_walk_state [OF w] show ?thesis by simp
next
  case False
  with assms show ?thesis
    by (auto simp: process_delay_list_def Let_def split: option.splits if_splits)
qed

lemma packet_step_static:
  assumes "packet_step init pv pkt = (pv', out)"
  shows "job pv' = job pv \<and> frameno_in pv' = frameno_in pv \<and> dts_delay pv' = dts_delay pv
    \<and> frame_info pv' = frame_info pv"
proof -
  obtain q b where r: "resolve_packet init pv pkt = (q, b)"
    by (cases "resolve_packet init pv pkt")
  with assms have "process_delay_list (pv\<lparr>chapter_queue := q\<rparr>) (Some b) = (pv', out)"
    by (simp add: packet_step_def)
  from process_delay_list_static [OF this] show ?thesis by simp
qed

lemma get_packets_static:
  "get_packets init pv list script = Some (pv', list') \<Longrightarrow>
     job pv' = job pv \<and> frameno_in pv' = frameno_in pv \<and> dts_delay pv' = dts_delay pv
     \<and> frame_info pv' = frame_info pv"
proof (induction init pv list script rule: get_packets.induct)
  case (4 init pv list ret pkt rs)
  obtain pv1 out1 where s: "packet_step init pv pkt = (pv1, out1)"
    by (cases "packet_step init pv pkt")
  with 4 packet_step_static [OF s] show ?case by simp
qed simp_all


section \<open>Depth zero\<close>

lemma resolve_packet_data:
  "resolve_packet init pv pkt = (q, b) \<Longrightarrow> b_data b = pkt_data pkt"
  by (auto simp: resolve_packet_def hb_chapter_dequeue_def Let_def split: if_splits list.splits)

lemma packet_step_depth0:
  assumes "areBframes (job pv) = 0" and "packet_step init pv pkt = (pv', out)"
  shows "\<exists>b. out = [b] \<and> s_renderOffset b = s_start b \<and> b_data b = pkt_data pkt
              \<and> delay_list pv' = delay_list pv \<and> frameno_out pv' = frameno_out pv"
proof -
  obtain q b where r: "resolve_packet init pv pkt = (q, b)"
    by (cases "resolve_packet init pv pkt")
  with assms have "pv' = pv\<lparr>chapter_queue := q\<rparr>" "out = [b\<lparr>s_renderOffset := s_start b\<rparr>]"
    by (simp_all add: packet_step_def process_delay_list_def)
  with resolve_packet_data [OF r] show ?thesis by simp
qed

lemma get_packets_depth0:
  "get_packets init pv list script = Some (pv', list') \<Longrightarrow> areBframes (job pv) = 0 \<Longrightarrow>
     \<exists>new. list' = list @ new \<and> map b_data new = map pkt_data (received script)
       \<and> (\<forall>b \<in> set new. s_renderOffset b = s_start b)
       \<and> delay_list pv' = delay_list pv \<and> frameno_out pv' = frameno_out pv"
proof (induction init pv list script arbitrary: pv' list' rule: get_packets.induct)
  case (4 init pv list ret pkt rs)
  obtain pv1 out1 where s: "packet_step init pv pkt = (pv1, out1)"
    by (cases "packet_step init pv pkt")
  from packet_step_depth0 [OF "4.prems"(2) s] obtain b where b:
    "out1 = [b]" "s_renderOffset b = s_start b" "b_data b = pkt_data pkt"
    "delay_list pv1 = delay_list pv" "frameno_out pv1 = frameno_out pv"
    by blast
  from packet_step_static [OF s] "4.prems"(2) have j: "areBframes (job pv1) = 0" by simp
  from "4.prems"(1) s have g: "get_packets init pv1 (list @ out1) rs = Some (pv', list')" by simp
  from "4.IH" [OF s [symmetric] refl g j] obtain new where n:
    "list' = (list @ out1) @ new" "map b_data new = map pkt_data (received rs)"
    "\<forall>b \<in> set new. s_renderOffset b = s_start b"
    "delay_list pv' = delay_list pv1" "frameno_out pv' = frameno_out pv1"
    by blast
  show ?case
    by (rule exI [of _ "b # new"]) (use b n in simp)
qed simp_all

section \<open>Calls\<close>

lemma submit_frame_fields:
  "submit_frame pv in_buf = (pv4, frame) \<Longrightarrow>
     areBframes (job pv4) = areBframes (job pv) \<and> chapter_markers (job pv4) = chapter_markers (job pv)
     \<and> frameno_in pv4 = frameno_in pv + 1 \<and> delay_list pv4 = delay_list pv
     \<and> frameno_out pv4 = frameno_out pv"
  by (auto simp: submit_frame_def Let_def save_frame_info_def compute_dts_offset_def
      split: if_splits)

lemma run_Submit:
  assumes "run init pv (Submit in_buf ret script # cs) = Some (pv', out)"
  obtains pv4 frame pv1 out1 out2 where
    "submit_frame pv in_buf = (pv4, frame)"
    "if ret <s 0 then pv1 = pv4 \<and> out1 = [] else get_packets init pv4 [] script = Some (pv1, out1)"
    "run init pv1 cs = Some (pv', out2)" "out = out1 @ out2"
proof -
  obtain pv4 frame where s: "submit_frame pv in_buf = (pv4, frame)"
    by (cases "submit_frame pv in_buf")
  from assms s obtain pv1 out1 out2 where
    "Encode init pv in_buf ret script [] = Some (pv1, out1, frame)"
    "run init pv1 cs = Some (pv', out2)" "out = out1 @ out2"
    by (auto simp: Encode_def split: option.splits if_splits)
  with s that [of pv4 frame pv1 out1 out2] show ?thesis
    by (auto simp: Encode_def split: option.splits if_splits)
qed

lemma run_Finish:
  assumes "run init pv (Finish script # cs) = Some (pv', out)"
  obtains pv1 out1 out2 where
    "get_packets init pv [] script = Some (pv1, out1)"
    "run init pv1 cs = Some (pv', out2)" "out = out1 @ out2"
  using assms by (auto simp: Flush_def split: option.splits)

lemma run_depth0:
  assumes "areBframes (job pv) = 0" and "run init pv calls = Some (pv', out)"
  shows "map b_data out = map pkt_data (drained calls)
     \<and> (\<forall>b \<in> set out. s_renderOffset b = s_start b)
     \<and> delay_list pv' = delay_list pv \<and> frameno_out pv' = frameno_out pv"
  using assms
proof (induction calls arbitrary: pv out)
  case Nil
  then show ?case by simp
next
  case (Cons c cs)
  show ?case
  proof (cases c)
    case (Submit in_buf ret script)
    from Cons.prems(2) [unfolded Submit] obtain pv4 frame pv1 out1 out2 where
      s: "submit_frame pv in_buf = (pv4, frame)"
      and g: "if ret <s 0 then pv1 = pv4 \<and> out1 = []
              else get_packets init pv4 [] script = Some (pv1, out1)"
      and r: "run init pv1 cs = Some (pv', out2)" and o: "out = out1 @ out2"
      by (rule run_Submit)
    from submit_frame_fields [OF s] Cons.prems(1)
    have z4: "areBframes (job pv4) = 0" "delay_list pv4 = delay_list pv"
      "frameno_out pv4 = frameno_out pv" by simp_all
    have step: "map b_data out1 = map pkt_data (if ret <s 0 then [] else received script)
       \<and> (\<forall>b \<in> set out1. s_renderOffset b = s_start b)
       \<and> delay_list pv1 = delay_list pv \<and> frameno_out pv1 = frameno_out pv
       \<and> areBframes (job pv1) = 0"
    proof (cases "ret <s 0")
      case True
      with g z4 show ?thesis by simp
    next
      case False
      with g have g': "get_packets init pv4 [] script = Some (pv1, out1)" by simp
      from get_packets_depth0 [OF g' z4(1)] get_packets_static [OF g'] z4 False
      show ?thesis by auto
    qed
    with Cons.IH [OF _ r] o Submit show ?thesis by auto
  next
    case (Finish script)
    from Cons.prems(2) [unfolded Finish] obtain pv1 out1 out2 where
      g: "get_packets init pv [] script = Some (pv1, out1)"
      and r: "run init pv1 cs = Some (pv', out2)" and o: "out = out1 @ out2"
      by (rule run_Finish)
    from get_packets_static [OF g] Cons.prems(1) have z: "areBframes (job pv1) = 0" by simp
    from Cons.IH [OF z r] get_packets_depth0 [OF g Cons.prems(1)] o Finish
    show ?thesis by auto
  qed
qed

text \<open>
  The drain loop returns as soon as the encoder answers \<open>EAGAIN\<close> or \<open>AVERROR_EOF\<close>,
  so a stream in which every call is answered runs to its end.
\<close>

lemma get_packets_returns:
  "terminated script \<Longrightarrow> \<exists>res. get_packets init pv list script = Some res"
proof (induction init pv list script rule: get_packets.induct)
  case (4 init pv list ret pkt rs)
  obtain pv1 out1 where s: "packet_step init pv pkt = (pv1, out1)"
    by (cases "packet_step init pv pkt")
  with 4 show ?case by simp
qed simp_all

lemma run_returns:
  "\<forall>c \<in> set calls. answered c \<Longrightarrow> \<exists>res. run init pv calls = Some res"
proof (induction calls arbitrary: pv)
  case Nil
  then show ?case by simp
next
  case (Cons c cs)
  show ?case
  proof (cases c)
    case (Submit in_buf ret script)
    obtain pv4 frame where s: "submit_frame pv in_buf = (pv4, frame)"
      by (cases "submit_frame pv in_buf")
    from Cons.prems Submit have a: "ret <s 0 \<or> terminated script" by simp
    have "\<exists>pv1 out1. Encode init pv in_buf ret script [] = Some (pv1, out1, frame)"
    proof (cases "ret <s 0")
      case True
      with s show ?thesis by (simp add: Encode_def)
    next
      case False
      with a get_packets_returns [of script init pv4 "[]"] s show ?thesis
        by (auto simp: Encode_def)
    qed
    then obtain pv1 out1 where e: "Encode init pv in_buf ret script [] = Some (pv1, out1, frame)"
      by blast
    from Cons.IH [of pv1] Cons.prems obtain res where "run init pv1 cs = Some res" by auto
    with e Submit show ?thesis by (cases res) simp
  next
    case (Finish script)
    from Cons.prems Finish get_packets_returns [of script init pv "[]"]
    obtain pv1 out1 where e: "Flush init pv script [] = Some (pv1, out1)"
      by (auto simp: Flush_def)
    from Cons.IH [of pv1] Cons.prems obtain res where "run init pv1 cs = Some res" by auto
    with e Finish show ?thesis by (cases res) simp
  qed
qed

text \<open>
  C7. With reorder depth 0 every drained packet is handed to the caller in the call that
  drained it, with \<open>renderOffset\<close> equal to its own \<open>start\<close>; the delay list is never
  touched, and the payloads reach the caller in exactly the order the encoder delivered
  them. (The statement holds for every sequence of calls, hence for every prefix of a
  stream.)
\<close>

theorem depth_zero_pass_through:
  assumes "areBframes (job pv) = 0" and "run init pv calls = Some (pv', out)"
  shows "map b_data out = map pkt_data (drained calls)
     \<and> (\<forall>b \<in> set out. s_renderOffset b = s_start b)
     \<and> delay_list pv' = delay_list pv \<and> frameno_out pv' = frameno_out pv"
  using assms by (rule run_depth0)

section \<open>Signed counters\<close>

lemma sint_succ32: "sint (n::32 word) < 2 ^ 31 - 1 \<Longrightarrow> sint (n + 1) = sint n + 1"
  using sint_ge [of n] by (simp add: sint_word_ariths signed_take_bit_int_eq_self)

lemma sint_inj32: "(a::32 word) = b \<longleftrightarrow> sint a = sint b"
  by (auto intro: signed_word_eqI)

section \<open>Holding packets\<close>

lemma packet_step_hold:
  assumes "areBframes (job pv) \<noteq> 0" and "frameno_in pv \<le>s areBframes (job pv)"
    and "packet_step init pv pkt = (pv', out)"
  shows "out = [] \<and> frameno_out pv' = frameno_out pv
     \<and> (\<exists>b. delay_list pv' = delay_list pv @ [b] \<and> b_data b = pkt_data pkt)"
proof -
  obtain q b where r: "resolve_packet init pv pkt = (q, b)"
    by (cases "resolve_packet init pv pkt")
  with assms have "pv' = pv\<lparr>chapter_queue := q, delay_list := delay_list pv @ [b]\<rparr>" "out = []"
    by (simp_all add: packet_step_def process_delay_list_def)
  with resolve_packet_data [OF r] show ?thesis by simp
qed

lemma get_packets_hold:
  "get_packets init pv list script = Some (pv', list') \<Longrightarrow>
   areBframes (job pv) \<noteq> 0 \<Longrightarrow> frameno_in pv \<le>s areBframes (job pv) \<Longrightarrow>
     list' = list \<and> frameno_out pv' = frameno_out pv
     \<and> map b_data (delay_list pv') = map b_data (delay_list pv) @ map pkt_data (received script)"
proof (induction init pv list script arbitrary: pv' list' rule: get_packets.induct)
  case (4 init pv list ret pkt rs)
  obtain pv1 out1 where s: "packet_step init pv pkt = (pv1, out1)"
    by (cases "packet_step init pv pkt")
  from packet_step_hold [OF "4.prems"(2,3) s] obtain b where b:
    "out1 = []" "frameno_out pv1 = frameno_out pv"
    "delay_list pv1 = delay_list pv @ [b]" "b_data b = pkt_data pkt"
    by blast
  from packet_step_static [OF s] "4.prems"(2,3)
  have j: "areBframes (job pv1) \<noteq> 0" "frameno_in pv1 \<le>s areBframes (job pv1)" by simp_all
  from "4.prems"(1) s have g: "get_packets init pv1 (list @ out1) rs = Some (pv', list')" by simp
  from "4.IH" [OF s [symmetric] refl g j] b show ?case by simp
qed simp_all

lemma run_hold:
  assumes "0 <s areBframes (job pv)" and "0 \<le> sint (frameno_in pv)"
    and "sint (frameno_in pv) + int (length (submitted calls)) \<le> sint (areBframes (job pv))"
    and "run init pv calls = Some (pv', out)"
  shows "out = [] \<and> frameno_out pv' = frameno_out pv
     \<and> map b_data (delay_list pv') = map b_data (delay_list pv) @ map pkt_data (drained calls)"
  using assms
proof (induction calls arbitrary: pv out)
  case Nil
  then show ?case by simp
next
  case (Cons c cs)
  from Cons.prems(1) have nz: "areBframes (job pv) \<noteq> 0" by auto
  show ?case
  proof (cases c)
    case (Submit in_buf ret script)
    from Cons.prems(4) [unfolded Submit] obtain pv4 frame pv1 out1 out2 where
      s: "submit_frame pv in_buf = (pv4, frame)"
      and g: "if ret <s 0 then pv1 = pv4 \<and> out1 = []
              else get_packets init pv4 [] script = Some (pv1, out1)"
      and r: "run init pv1 cs = Some (pv', out2)" and o: "out = out1 @ out2"
      by (rule run_Submit)
    from Cons.prems(3) Submit
    have lt: "sint (frameno_in pv) + 1 + int (length (submitted cs)) \<le> sint (areBframes (job pv))"
      by simp
    with sint_lt [of "areBframes (job pv)"] have "sint (frameno_in pv) < 2 ^ 31 - 1" by simp
    then have suc: "sint (frameno_in pv + 1) = sint (frameno_in pv) + 1" by (rule sint_succ32)
    from submit_frame_fields [OF s] Cons.prems(1) nz suc lt Cons.prems(2)
    have f4: "areBframes (job pv4) = areBframes (job pv)" "areBframes (job pv4) \<noteq> 0"
      "frameno_in pv4 \<le>s areBframes (job pv4)" "sint (frameno_in pv4) = sint (frameno_in pv) + 1"
      "delay_list pv4 = delay_list pv" "frameno_out pv4 = frameno_out pv"
      by (simp_all add: word_sle_eq)
    have step: "out1 = [] \<and> frameno_out pv1 = frameno_out pv
       \<and> map b_data (delay_list pv1)
           = map b_data (delay_list pv) @ map pkt_data (if ret <s 0 then [] else received script)
       \<and> job pv1 = job pv4 \<and> frameno_in pv1 = frameno_in pv4"
    proof (cases "ret <s 0")
      case True
      with g f4 show ?thesis by simp
    next
      case False
      with g have g': "get_packets init pv4 [] script = Some (pv1, out1)" by simp
      from get_packets_hold [OF g' f4(2,3)] get_packets_static [OF g'] f4 False
      show ?thesis by simp
    qed
    with f4 Cons.prems(1,2) lt
    have p1: "0 <s areBframes (job pv1)" "0 \<le> sint (frameno_in pv1)"
      "sint (frameno_in pv1) + int (length (submitted cs)) \<le> sint (areBframes (job pv1))"
      by simp_all
    from Cons.IH [OF p1 r] step o Submit show ?thesis by simp
  next
    case (Finish script)
    from Cons.prems(4) [unfolded Finish] obtain pv1 out1 out2 where
      g: "get_packets init pv [] script = Some (pv1, out1)"
      and r: "run init pv1 cs = Some (pv', out2)" and o: "out = out1 @ out2"
      by (rule run_Finish)
    from Cons.prems(3) have le: "frameno_in pv \<le>s areBframes (job pv)"
      by (simp add: word_sle_eq)
    from get_packets_static [OF g] Cons.prems(1,2,3) Finish
    have p1: "0 <s areBframes (job pv1)" "0 \<le> sint (frameno_in pv1)"
      "sint (frameno_in pv1) + int (length (submitted cs)) \<le> sint (areBframes (job pv1))"
      by simp_all
    from Cons.IH [OF p1 r] get_packets_hold [OF g nz le] o Finish show ?thesis by simp
  qed
qed

text \<open>
  C6. With reorder depth \<open>d > 0\<close>, as long as at most \<open>d\<close> frames have been submitted
  (the frame with sequence number \<open>d\<close> has not), no call hands anything to the caller:
  every drained packet is appended to the delay list, in order, and \<open>frameno_out\<close> does
  not move.
\<close>

theorem nothing_released_before_delay_known:
  assumes "0 <s areBframes (job pv)" and "frameno_in pv = 0"
    and "int (length (submitted calls)) \<le> sint (areBframes (job pv))"
    and "run init pv calls = Some (pv', out)"
  shows "out = [] \<and> frameno_out pv' = frameno_out pv
     \<and> map b_data (delay_list pv') = map b_data (delay_list pv) @ map pkt_data (drained calls)"
  using run_hold [of pv calls init pv' out] assms by simp


section \<open>The reorder delay is fixed once\<close>

lemma submit_frame_dts:
  "submit_frame pv in_buf = (pv4, frame) \<Longrightarrow>
     dts_delay pv4 =
       (if areBframes (job pv) \<noteq> 0 \<and> frameno_in pv = areBframes (job pv)
        then s_start in_buf else dts_delay pv)"
  by (auto simp: submit_frame_def Let_def save_frame_info_def compute_dts_offset_def
      split: if_splits)

lemma run_dts_delay:
  assumes "0 <s areBframes (job pv)" and "0 \<le> sint (frameno_in pv)"
    and "sint (frameno_in pv) + int (length (submitted calls)) < 2 ^ 31"
    and "run init pv calls = Some (pv', out)"
  shows "dts_delay pv' =
     (if sint (frameno_in pv) \<le> sint (areBframes (job pv))
         \<and> sint (areBframes (job pv)) < sint (frameno_in pv) + int (length (submitted calls))
      then s_start (submitted calls ! nat (sint (areBframes (job pv)) - sint (frameno_in pv)))
      else dts_delay pv)"
  using assms
proof (induction calls arbitrary: pv out)
  case Nil
  then show ?case by auto
next
  case (Cons c cs)
  from Cons.prems(1) have nz: "areBframes (job pv) \<noteq> 0" by auto
  show ?case
  proof (cases c)
    case (Submit in_buf ret script)
    from Cons.prems(4) [unfolded Submit] obtain pv4 frame pv1 out1 out2 where
      s: "submit_frame pv in_buf = (pv4, frame)"
      and g: "if ret <s 0 then pv1 = pv4 \<and> out1 = []
              else get_packets init pv4 [] script = Some (pv1, out1)"
      and r: "run init pv1 cs = Some (pv', out2)"
      by (rule run_Submit)
    from Cons.prems(3) Submit
    have lt: "sint (frameno_in pv) + 1 + int (length (submitted cs)) < 2 ^ 31" by simp
    then have "sint (frameno_in pv) < 2 ^ 31 - 1" by simp
    then have suc: "sint (frameno_in pv + 1) = sint (frameno_in pv) + 1" by (rule sint_succ32)
    have same: "job pv1 = job pv4 \<and> frameno_in pv1 = frameno_in pv4 \<and> dts_delay pv1 = dts_delay pv4"
      using g get_packets_static [of init pv4 "[]" script pv1 out1] by (cases "ret <s 0") simp_all
    with submit_frame_fields [OF s] suc lt Cons.prems(1,2)
    have p1: "0 <s areBframes (job pv1)" "0 \<le> sint (frameno_in pv1)"
      "sint (frameno_in pv1) + int (length (submitted cs)) < 2 ^ 31"
      and eqs: "areBframes (job pv1) = areBframes (job pv)"
        "sint (frameno_in pv1) = sint (frameno_in pv) + 1"
      by simp_all
    have here: "dts_delay pv1 =
        (if sint (frameno_in pv) = sint (areBframes (job pv)) then s_start in_buf else dts_delay pv)"
      using submit_frame_dts [OF s] same nz by (simp add: sint_inj32)
    let ?n = "sint (frameno_in pv)" and ?d = "sint (areBframes (job pv))"
    show ?thesis
    proof (cases "?n = ?d")
      case True
      with Cons.IH [OF p1 r] eqs here Submit show ?thesis by simp
    next
      case False
      have "nat (?d - ?n) = Suc (nat (?d - (?n + 1)))" if "?n < ?d"
        using that by simp
      with False Cons.IH [OF p1 r] eqs here Submit show ?thesis by auto
    qed
  next
    case (Finish script)
    from Cons.prems(4) [unfolded Finish] obtain pv1 out1 out2 where
      g: "get_packets init pv [] script = Some (pv1, out1)"
      and r: "run init pv1 cs = Some (pv', out2)"
      by (rule run_Finish)
    from get_packets_static [OF g] Cons.prems(1,2,3) Finish
    have p1: "0 <s areBframes (job pv1)" "0 \<le> sint (frameno_in pv1)"
      "sint (frameno_in pv1) + int (length (submitted cs)) < 2 ^ 31"
      by simp_all
    from Cons.IH [OF p1 r] get_packets_static [OF g] Finish show ?thesis by simp
  qed
qed

text \<open>
  C4. With reorder depth \<open>d > 0\<close>, \<open>dts_delay\<close> is assigned exactly once: after any
  sequence of calls on a fresh stream (fewer than \<open>2 ^ 31\<close> frames, so that the \<open>int\<close>
  frame counter does not overflow) it is the start of the frame with sequence number
  \<open>d\<close> if that frame has been submitted, and still its initial value otherwise; no
  later frame, packet or flush changes it.
\<close>

theorem dts_delay_assigned_once:
  assumes "0 <s areBframes (job pv)" and "frameno_in pv = 0"
    and "length (submitted calls) < 2 ^ 31"
    and "run init pv calls = Some (pv', out)"
  shows "dts_delay pv' =
     (if nat (sint (areBframes (job pv))) < length (submitted calls)
      then s_start (submitted calls ! nat (sint (areBframes (job pv))))
      else dts_delay pv)"
proof -
  from assms(1) have "0 < sint (areBframes (job pv))" by (simp add: word_sless_alt)
  moreover have "int (length (submitted calls)) < 2 ^ 31" using assms(3)
    by (metis of_nat_less_iff of_nat_numeral of_nat_power)
  ultimately show ?thesis
    using run_dts_delay [of pv calls init pv' out] assms by (simp add: nat_less_iff)
qed


section \<open>Worked examples\<close>

lemmas model_defs = Encode_def submit_frame_def Flush_def save_frame_info_def
  compute_dts_offset_def packet_step_def resolve_packet_def process_delay_list_def
  get_frame_start_def get_frame_duration_def hb_chapter_enqueue_def hb_chapter_dequeue_def
  AV_PKT_FLAG_KEY_def FRAME_INFO_MASK_def FRAME_INFO_SIZE_def AV_PICTURE_TYPE_I_def
  AV_PICTURE_TYPE_NONE_def Let_def

theorem depth_zero_pass_through_witness:
  "areBframes (job (init_private (job_of 0 1))) = 0
   \<and> map_option (map offsets \<circ> snd) (three_frames 0 1)
       = Some [(0, 0), (3000, 3000), (6000, 6000)]"
proof -
  have h: "areBframes (job (init_private (job_of 0 1))) = 0" by (simp add: demo_defs)
  have c: "map_option (map offsets \<circ> snd) (three_frames 0 1)
       = Some [(0, 0), (3000, 3000), (6000, 6000)]"
    by (simp add: three_frames_def three_calls_def offsets_def demo_defs model_defs)
  then obtain pv' out where r: "run zero_buffer (init_private (job_of 0 1)) three_calls = Some (pv', out)"
    by (auto simp: three_frames_def)
  from depth_zero_pass_through [OF h r] h c show ?thesis by simp
qed

theorem nothing_released_before_delay_known_witness:
  "0 <s areBframes (job (init_private (job_of 3 1)))
   \<and> frameno_in (init_private (job_of 3 1)) = 0
   \<and> int (length (submitted three_calls)) \<le> sint (areBframes (job (init_private (job_of 3 1))))
   \<and> map_option (map offsets \<circ> snd) (three_frames 3 1) = Some []"
proof -
  have h1: "0 <s areBframes (job (init_private (job_of 3 1)))" by (simp add: demo_defs)
  have h2: "frameno_in (init_private (job_of 3 1)) = 0" by (simp add: demo_defs)
  have h3: "int (length (submitted three_calls)) \<le> sint (areBframes (job (init_private (job_of 3 1))))"
    by (simp add: three_calls_def demo_defs)
  have "three_frames 3 1 \<noteq> None"
    by (simp add: three_frames_def three_calls_def demo_defs model_defs)
  then obtain pv' out where r: "run zero_buffer (init_private (job_of 3 1)) three_calls = Some (pv', out)"
    by (auto simp: three_frames_def)
  from nothing_released_before_delay_known [OF h1 h2 h3 r] have "out = []" by simp
  with r h1 h2 h3 show ?thesis by (simp add: three_frames_def)
qed

theorem dts_delay_assigned_once_witness:
  "0 <s areBframes (job (init_private (job_of 1 1)))
   \<and> frameno_in (init_private (job_of 1 1)) = 0
   \<and> length (submitted three_calls) < 2 ^ 31
   \<and> map_option (dts_delay \<circ> fst) (three_frames 1 1) = Some 3000"
proof -
  have h1: "0 <s areBframes (job (init_private (job_of 1 1)))" by (simp add: demo_defs)
  have h2: "frameno_in (init_private (job_of 1 1)) = 0" by (simp add: demo_defs)
  have h3: "length (submitted three_calls) < 2 ^ 31" by (simp add: three_calls_def)
  have "three_frames 1 1 \<noteq> None"
    by (simp add: three_frames_def three_calls_def demo_defs model_defs)
  then obtain pv' out where r: "run zero_buffer (init_private (job_of 1 1)) three_calls = Some (pv', out)"
    by (auto simp: three_frames_def)
  from dts_delay_assigned_once [OF h1 h2 h3 r] have "dts_delay pv' = 3000"
    by (simp add: three_calls_def demo_defs)
  with r h1 h2 h3 show ?thesis by (simp add: three_frames_def)
qed


section \<open>Stop times\<close>

lemma resolve_packet_stop:
  "resolve_packet init pv pkt = (q, b) \<Longrightarrow>
     s_stop b = s_stop (init (length (pkt_data pkt))) + get_frame_duration pv (pkt_pts pkt)
     \<and> s_start b = get_frame_start pv (pkt_pts pkt)
     \<and> s_duration b = get_frame_duration pv (pkt_pts pkt)"
  by (auto simp: resolve_packet_def hb_chapter_dequeue_def Let_def split: if_splits list.splits)


text \<open>
  C2 (stop = resolved start + resolved duration). \<open>get_packets\<close> computes
  \<open>out->s.stop = out->s.stop + out->s.duration\<close>: the stop time is the stop time of the
  fresh buffer plus the duration, and the resolved start does not enter. Two packets of
  the same size whose frames start at 0 and 3000, both 3000 long, receive the same stop
  time whatever \<open>hb_buffer_init\<close> returns, while start + duration is 3000 and 6000.
\<close>

theorem stop_is_initial_stop_plus_duration:
  "map_option (map stamps \<circ> snd) (run hb_buffer_init (init_private (job_of 0 0)) two_calls)
     = Some [(0, 3000, s_stop (hb_buffer_init 0) + 3000),
             (3000, 3000, s_stop (hb_buffer_init 0) + 3000)]"
  by (simp add: two_calls_def stamps_def demo_defs model_defs)

section \<open>End of stream\<close>

text \<open>
  C3 (flush releases every held packet). \<open>Flush\<close> only drains the encoder through
  \<open>get_packets\<close>; nothing walks the delay list at end of stream. With reorder depth 16
  and five frames submitted, the five packets the encoder delivers at the flush are all
  appended to the delay list and the caller receives nothing.
\<close>

theorem short_stream_flush_releases_nothing:
  "map_option snd (run zero_buffer (init_private (job_of 16 0)) short_stream) = Some []
   \<and> map_option (length \<circ> delay_list \<circ> fst)
        (run zero_buffer (init_private (job_of 16 0)) short_stream) = Some 5"
  by code_simp

section \<open>Chapter marks\<close>

lemma submit_frame_queue:
  "chapter_queue (fst (submit_frame pv in_buf)) =
     (if 0 <s s_new_chap in_buf \<and> chapter_markers (job pv) \<noteq> 0
      then hb_chapter_enqueue (chapter_queue pv) in_buf else chapter_queue pv)"
  by (simp add: submit_frame_def Let_def save_frame_info_def compute_dts_offset_def)

lemma submit_frame_request:
  "snd (submit_frame pv in_buf) =
     (if 0 <s s_new_chap in_buf \<and> chapter_markers (job pv) \<noteq> 0
      then \<lparr>pict_type = AV_PICTURE_TYPE_I, key_frame = 1, frame_pts = scast (frameno_in pv)\<rparr>
      else \<lparr>pict_type = AV_PICTURE_TYPE_NONE, key_frame = 0, frame_pts = scast (frameno_in pv)\<rparr>)"
  by (simp add: submit_frame_def Let_def save_frame_info_def compute_dts_offset_def)

lemma submit_frame_timing:
  "frame_info (fst (submit_frame pv in_buf)) = frame_info (save_frame_info pv in_buf)
   \<and> dts_delay (fst (submit_frame pv in_buf)) = dts_delay (compute_dts_offset pv in_buf)
   \<and> init_delay (job (fst (submit_frame pv in_buf))) = init_delay (job (compute_dts_offset pv in_buf))
   \<and> frameno_in (fst (submit_frame pv in_buf)) = frameno_in pv + 1
   \<and> frameno_out (fst (submit_frame pv in_buf)) = frameno_out pv
   \<and> delay_list (fst (submit_frame pv in_buf)) = delay_list pv"
  by (simp add: submit_frame_def Let_def save_frame_info_def compute_dts_offset_def)

lemma packet_step_queue:
  "chapter_queue (fst (packet_step init pv pkt)) = fst (resolve_packet init pv pkt)"
proof -
  obtain q b where r: "resolve_packet init pv pkt = (q, b)"
    by (cases "resolve_packet init pv pkt")
  obtain pv' out where p: "process_delay_list (pv\<lparr>chapter_queue := q\<rparr>) (Some b) = (pv', out)"
    by (cases "process_delay_list (pv\<lparr>chapter_queue := q\<rparr>) (Some b)")
  from process_delay_list_static [OF p] r p show ?thesis by (simp add: packet_step_def)
qed

lemma resolve_packet_chapter:
  "fst (resolve_packet init pv pkt) =
     (if pkt_flags pkt AND AV_PKT_FLAG_KEY \<noteq> 0
      then (case chapter_queue pv of [] \<Rightarrow> [] | item # rest \<Rightarrow> rest)
      else chapter_queue pv)
   \<and> s_new_chap (snd (resolve_packet init pv pkt)) =
     (if pkt_flags pkt AND AV_PKT_FLAG_KEY \<noteq> 0
      then (case chapter_queue pv of
              [] \<Rightarrow> s_new_chap (init (length (pkt_data pkt)))
            | item # rest \<Rightarrow> mark_new_chap item)
      else s_new_chap (init (length (pkt_data pkt))))"
  by (simp add: resolve_packet_def hb_chapter_dequeue_def Let_def split: list.splits)

text \<open>
  C8, amended. Chapter marks pair with keyframes first in, first out. Submitting a frame
  whose chapter number is positive, with the job's \<open>chapter_markers\<close> setting enabled,
  appends one mark to the queue. Resolving a packet with the keyframe flag removes the
  oldest mark, if there is one, and gives the packet that mark's chapter number; with an
  empty queue the packet keeps the chapter number of the fresh buffer. A packet without
  the keyframe flag leaves the queue alone and keeps the fresh buffer's chapter number.
\<close>

theorem chapter_marks_pair_fifo:
  "(0 <s s_new_chap in_buf \<and> chapter_markers (job pv) \<noteq> 0 \<longrightarrow>
      chapter_queue (fst (submit_frame pv in_buf))
        = chapter_queue pv @ [\<lparr>mark_new_chap = s_new_chap in_buf, mark_start = s_start in_buf\<rparr>])
   \<and> (pkt_flags pkt AND AV_PKT_FLAG_KEY \<noteq> 0 \<and> chapter_queue pv = item # rest \<longrightarrow>
        chapter_queue (fst (packet_step init pv pkt)) = rest
        \<and> s_new_chap (snd (resolve_packet init pv pkt)) = mark_new_chap item)
   \<and> (pkt_flags pkt AND AV_PKT_FLAG_KEY \<noteq> 0 \<and> chapter_queue pv = [] \<longrightarrow>
        chapter_queue (fst (packet_step init pv pkt)) = []
        \<and> s_new_chap (snd (resolve_packet init pv pkt)) = s_new_chap (init (length (pkt_data pkt))))
   \<and> (pkt_flags pkt AND AV_PKT_FLAG_KEY = 0 \<longrightarrow>
        chapter_queue (fst (packet_step init pv pkt)) = chapter_queue pv
        \<and> s_new_chap (snd (resolve_packet init pv pkt)) = s_new_chap (init (length (pkt_data pkt))))"
  by (simp add: submit_frame_queue hb_chapter_enqueue_def packet_step_queue
        resolve_packet_chapter)

text \<open>
  The claim without the condition on \<open>chapter_markers\<close> fails: with the setting
  disabled, a frame that carries a chapter number enqueues nothing.
\<close>

theorem chapter_mark_not_enqueued_counterexample:
  "0 <s s_new_chap marked_frame
   \<and> chapter_queue (fst (submit_frame (init_private (job_of 0 0)) marked_frame)) = []"
  by (simp add: marked_frame_def demo_defs model_defs)

text \<open>
  Frames \<open>F0\<close> (chapter), \<open>F1\<close>, \<open>F2\<close>, \<open>F3\<close>, \<open>F4\<close> at depth 0, with the packets of
  \<open>F2\<close> and \<open>F4\<close> flagged as keyframes: the chapter goes to the packet of \<open>F2\<close>.
\<close>

lemma chapter_example:
  "map_option (map s_new_chap \<circ> snd) (run zero_buffer (init_private (job_of 0 1)) chapter_calls)
     = Some [0, 0, 1, 0, 0]"
  by code_simp

text \<open>
  C9. \<open>Encode\<close> enqueues a chapter mark and asks the encoder for an I picture with
  \<open>key_frame = 1\<close> only if the frame's chapter number is positive and the job's
  \<open>chapter_markers\<close> setting is enabled. With the setting disabled the queue is left
  unchanged and no keyframe is requested. The registry, \<open>dts_delay\<close>, the delay list,
  both frame counters and the frame's \<open>pts\<close> do not depend on the setting.
\<close>

theorem chapter_request_needs_job_setting:
  "(0 <s s_new_chap in_buf \<and> chapter_markers (job pv) \<noteq> 0 \<longrightarrow>
      chapter_queue (fst (submit_frame pv in_buf)) = hb_chapter_enqueue (chapter_queue pv) in_buf
      \<and> key_frame (snd (submit_frame pv in_buf)) = 1
      \<and> pict_type (snd (submit_frame pv in_buf)) = AV_PICTURE_TYPE_I)
   \<and> (chapter_markers (job pv) = 0 \<longrightarrow>
      chapter_queue (fst (submit_frame pv in_buf)) = chapter_queue pv
      \<and> key_frame (snd (submit_frame pv in_buf)) = 0
      \<and> pict_type (snd (submit_frame pv in_buf)) = AV_PICTURE_TYPE_NONE)
   \<and> frame_info (fst (submit_frame pv in_buf))
        = frame_info (fst (submit_frame (pv\<lparr>job := (job pv)\<lparr>chapter_markers := m\<rparr>\<rparr>) in_buf))
   \<and> dts_delay (fst (submit_frame pv in_buf))
        = dts_delay (fst (submit_frame (pv\<lparr>job := (job pv)\<lparr>chapter_markers := m\<rparr>\<rparr>) in_buf))
   \<and> delay_list (fst (submit_frame pv in_buf))
        = delay_list (fst (submit_frame (pv\<lparr>job := (job pv)\<lparr>chapter_markers := m\<rparr>\<rparr>) in_buf))
   \<and> frameno_in (fst (submit_frame pv in_buf))
        = frameno_in (fst (submit_frame (pv\<lparr>job := (job pv)\<lparr>chapter_markers := m\<rparr>\<rparr>) in_buf))
   \<and> frameno_out (fst (submit_frame pv in_buf))
        = frameno_out (fst (submit_frame (pv\<lparr>job := (job pv)\<lparr>chapter_markers := m\<rparr>\<rparr>) in_buf))
   \<and> frame_pts (snd (submit_frame pv in_buf))
        = frame_pts (snd (submit_frame (pv\<lparr>job := (job pv)\<lparr>chapter_markers := m\<rparr>\<rparr>) in_buf))"
  by (simp add: submit_frame_queue submit_frame_request submit_frame_timing
        save_frame_info_def compute_dts_offset_def)


theorem chapter_marks_pair_fifo_witness:
  "chapter_queue pending_state = [\<lparr>mark_new_chap = 1, mark_start = 0\<rparr>]
   \<and> chapter_queue (fst (packet_step zero_buffer pending_state key_packet)) = []
   \<and> s_new_chap (snd (resolve_packet zero_buffer pending_state key_packet)) = 1
   \<and> chapter_queue (fst (packet_step zero_buffer pending_state plain_packet))
       = [\<lparr>mark_new_chap = 1, mark_start = 0\<rparr>]
   \<and> s_new_chap (snd (resolve_packet zero_buffer pending_state plain_packet)) = 0
   \<and> chapter_queue (fst (packet_step zero_buffer (init_private (job_of 0 1)) key_packet)) = []
   \<and> s_new_chap (snd (resolve_packet zero_buffer (init_private (job_of 0 1)) key_packet)) = 0"
proof -
  have h1: "0 <s s_new_chap marked_frame \<and> chapter_markers (job (init_private (job_of 0 1))) \<noteq> 0"
    by (simp add: marked_frame_def demo_defs)
  have q0: "chapter_queue (init_private (job_of 0 1)) = []" by (simp add: demo_defs)
  have k: "pkt_flags key_packet AND AV_PKT_FLAG_KEY \<noteq> 0" "pkt_flags plain_packet AND AV_PKT_FLAG_KEY = 0"
    by (simp_all add: key_packet_def plain_packet_def AV_PKT_FLAG_KEY_def)
  from chapter_marks_pair_fifo [of marked_frame "init_private (job_of 0 1)" key_packet _ _ zero_buffer] h1 q0 k
  have a: "chapter_queue pending_state = [\<lparr>mark_new_chap = 1, mark_start = 0\<rparr>]"
    "chapter_queue (fst (packet_step zero_buffer (init_private (job_of 0 1)) key_packet)) = []"
    "s_new_chap (snd (resolve_packet zero_buffer (init_private (job_of 0 1)) key_packet)) = 0"
    by (simp_all add: pending_state_def marked_frame_def key_packet_def demo_defs)
  from chapter_marks_pair_fifo [of marked_frame pending_state key_packet
      "\<lparr>mark_new_chap = 1, mark_start = 0\<rparr>" "[]" zero_buffer] a(1) k
  have b: "chapter_queue (fst (packet_step zero_buffer pending_state key_packet)) = []"
    "s_new_chap (snd (resolve_packet zero_buffer pending_state key_packet)) = 1"
    by simp_all
  from chapter_marks_pair_fifo [of marked_frame pending_state plain_packet _ _ zero_buffer] a(1) k
  have c: "chapter_queue (fst (packet_step zero_buffer pending_state plain_packet))
       = [\<lparr>mark_new_chap = 1, mark_start = 0\<rparr>]"
    "s_new_chap (snd (resolve_packet zero_buffer pending_state plain_packet)) = 0"
    by (simp_all add: plain_packet_def demo_defs)
  from a b c show ?thesis by simp
qed

theorem chapter_request_needs_job_setting_witness:
  "0 <s s_new_chap marked_frame
   \<and> chapter_queue (fst (submit_frame (init_private (job_of 0 1)) marked_frame))
       = [\<lparr>mark_new_chap = 1, mark_start = 0\<rparr>]
   \<and> key_frame (snd (submit_frame (init_private (job_of 0 1)) marked_frame)) = 1
   \<and> chapter_queue (fst (submit_frame (init_private (job_of 0 0)) marked_frame)) = []
   \<and> key_frame (snd (submit_frame (init_private (job_of 0 0)) marked_frame)) = 0"
proof -
  have h1: "0 <s s_new_chap marked_frame \<and> chapter_markers (job (init_private (job_of 0 1))) \<noteq> 0"
    by (simp add: marked_frame_def demo_defs)
  have h0: "chapter_markers (job (init_private (job_of 0 0))) = 0" by (simp add: demo_defs)
  from chapter_request_needs_job_setting [of marked_frame "init_private (job_of 0 1)" 0] h1
  have a: "chapter_queue (fst (submit_frame (init_private (job_of 0 1)) marked_frame))
       = [\<lparr>mark_new_chap = 1, mark_start = 0\<rparr>]"
    "key_frame (snd (submit_frame (init_private (job_of 0 1)) marked_frame)) = 1"
    by (simp_all add: hb_chapter_enqueue_def marked_frame_def demo_defs)
  from chapter_request_needs_job_setting [of marked_frame "init_private (job_of 0 0)" 0] h0
  have b: "chapter_queue (fst (submit_frame (init_private (job_of 0 0)) marked_frame)) = []"
    "key_frame (snd (submit_frame (init_private (job_of 0 0)) marked_frame)) = 0"
    by (simp_all add: demo_defs)
  from a b h1 show ?thesis by simp
qed


section \<open>Decode and presentation time stamps\<close>

lemma uint_sint32: "0 \<le> sint (n::32 word) \<Longrightarrow> uint n = sint n"
  using sint_lt [of n] by (simp add: uint_sint take_bit_int_eq_self)

lemma uint_sint64: "0 \<le> sint (n::64 word) \<Longrightarrow> uint n = sint n"
  using sint_lt [of n] by (simp add: uint_sint take_bit_int_eq_self)

lemma unat_sint32: "0 \<le> sint (n::32 word) \<Longrightarrow> unat n = nat (sint n)"
  by (simp flip: uint_sint32)

lemma unat_sint64: "0 \<le> sint (n::64 word) \<Longrightarrow> unat n = nat (sint n)"
  by (simp flip: uint_sint64)

lemma sint_scast64: "sint (scast (a::32 word) :: 64 word) = sint a"
  by (simp add: sint_up_scast is_up)

lemma sint_diff32:
  "0 \<le> sint (a::32 word) \<Longrightarrow> 0 \<le> sint (b::32 word) \<Longrightarrow> sint (a - b) = sint a - sint b"
  using sint_lt [of a] sint_lt [of b]
  by (simp add: sint_word_ariths signed_take_bit_int_eq_self)

lemma sint_diff64:
  "0 \<le> sint (a::64 word) \<Longrightarrow> 0 \<le> sint (b::64 word) \<Longrightarrow> sint (a - b) = sint a - sint b"
  using sint_lt [of a] sint_lt [of b]
  by (simp add: sint_word_ariths signed_take_bit_int_eq_self)

lemma sint_add_nat32:
  assumes "0 \<le> sint (r::32 word)" and "sint r + int j < 2 ^ 31"
  shows "sint (r + of_nat j) = sint r + int j"
proof -
  have j: "int j < 2 ^ 31" using assms by simp
  then have "sint (of_nat j :: 32 word) = int j"
    by (simp add: signed_of_nat signed_take_bit_int_eq_self)
  with assms show ?thesis
    by (simp add: sint_word_ariths signed_take_bit_int_eq_self)
qed

lemma registry_lookup:
  assumes "stream_inv ss pv" and "0 \<le> sint x" and "sint x < int (length ss)"
    and "int (length ss) \<le> sint x + 32"
  shows "get_frame_start pv x = ss ! nat (sint x)"
proof -
  have "get_frame_start pv x = fi_start (frame_info pv (nat (sint x) mod 32))"
    using assms(2) by (simp add: get_frame_start_slot unat_sint64)
  moreover have "nat (sint x) < length ss" "length ss \<le> nat (sint x) + 32"
    using assms(2,3,4) by linarith+
  ultimately show ?thesis using assms(1) by (simp add: stream_inv_def)
qed

lemma submit_frame_areBframes:
  "areBframes (job (fst (submit_frame pv in_buf))) = areBframes (job pv)"
  by (simp add: submit_frame_def Let_def save_frame_info_def compute_dts_offset_def)

lemma mod32_distinct:
  assumes "j < n" and "n < j + 32"
  shows "j mod 32 \<noteq> n mod (32::nat)"
proof
  assume e: "j mod 32 = n mod 32"
  then have "(n - j) mod 32 = 0"
    using assms(1) by (metis less_imp_le_nat mod_eq_dvd_iff_nat mod_0_imp_dvd dvd_imp_mod_0)
  moreover have "0 < n - j" "n - j < 32" using assms by simp_all
  ultimately show False by simp
qed

lemma submit_frame_inv:
  assumes inv: "stream_inv ss pv" and room: "int (length ss) < 2 ^ 31 - 1"
  shows "stream_inv (ss @ [s_start in_buf]) (fst (submit_frame pv in_buf))"
proof -
  let ?pv' = "fst (submit_frame pv in_buf)"
  let ?n = "length ss"
  let ?d = "sint (areBframes (job pv))"
  from inv have n: "sint (frameno_in pv) = int ?n" and r: "0 \<le> sint (frameno_out pv)"
    and d: "0 < ?d"
    and ring: "\<And>j. j < ?n \<Longrightarrow> ?n \<le> j + 32 \<Longrightarrow> fi_start (frame_info pv (j mod 32)) = ss ! j"
    and dts: "?d < int ?n \<Longrightarrow> dts_delay pv = ss ! nat ?d"
    and held: "\<And>i. i < length (delay_list pv) \<Longrightarrow> \<exists>p < ?n.
          s_start (delay_list pv ! i) = ss ! p \<and> sint (frameno_out pv) + int i - ?d \<le> int p"
    by (simp_all add: stream_inv_def)
  have t: "frame_info ?pv' = frame_info (save_frame_info pv in_buf)"
    "dts_delay ?pv' = dts_delay (compute_dts_offset pv in_buf)"
    "frameno_in ?pv' = frameno_in pv + 1" "frameno_out ?pv' = frameno_out pv"
    "delay_list ?pv' = delay_list pv" "areBframes (job ?pv') = areBframes (job pv)"
    using submit_frame_timing [of pv in_buf] by (simp_all add: submit_frame_areBframes)
  have nn: "0 \<le> sint (frameno_in pv)" using n by simp
  have slot: "unat (frameno_in pv AND FRAME_INFO_MASK) = ?n mod 32"
    using n by (simp add: slot32 unat_sint32 [OF nn])
  have c1: "sint (frameno_in ?pv') = int (length (ss @ [s_start in_buf]))"
    using n room by (simp add: t sint_succ32)
  have c4: "fi_start (frame_info ?pv' (j mod 32)) = (ss @ [s_start in_buf]) ! j"
    if "j < length (ss @ [s_start in_buf])" "length (ss @ [s_start in_buf]) \<le> j + 32" for j
  proof (cases "j = ?n")
    case True
    then show ?thesis by (simp add: t save_frame_info_def slot)
  next
    case False
    with that have j: "j < ?n" "?n < j + 32" by simp_all
    from mod32_distinct [OF j] have "j mod 32 \<noteq> ?n mod 32" .
    with ring [of j] j show ?thesis by (simp add: t save_frame_info_def slot nth_append)
  qed
  have c5: "dts_delay ?pv' = (ss @ [s_start in_buf]) ! nat ?d"
    if "?d < int (length (ss @ [s_start in_buf]))"
  proof (cases "?d = int ?n")
    case True
    then have "frameno_in pv = areBframes (job pv)" using n by (simp add: sint_inj32)
    moreover have "areBframes (job pv) \<noteq> 0" using d by auto
    ultimately show ?thesis using True by (simp add: t compute_dts_offset_def)
  next
    case False
    with that have lt: "?d < int ?n" by simp
    from False have "frameno_in pv \<noteq> areBframes (job pv)" using n by (simp add: sint_inj32)
    moreover have "nat ?d < ?n" using lt d by linarith
    moreover have "areBframes (job pv) \<noteq> 0" using d by auto
    ultimately show ?thesis using dts [OF lt] by (simp add: t compute_dts_offset_def nth_append)
  qed
  have c6: "\<exists>p < length (ss @ [s_start in_buf]).
          s_start (delay_list ?pv' ! i) = (ss @ [s_start in_buf]) ! p
          \<and> sint (frameno_out ?pv') + int i - sint (areBframes (job ?pv')) \<le> int p"
    if "i < length (delay_list ?pv')" for i
  proof -
    from that held [of i] obtain p where "p < ?n" "s_start (delay_list pv ! i) = ss ! p"
      "sint (frameno_out pv) + int i - ?d \<le> int p" by (auto simp: t)
    then show ?thesis by (intro exI [of _ p]) (simp add: t nth_append)
  qed
  show ?thesis
    unfolding stream_inv_def
    using c1 r d c4 c5 c6 by (simp only: t) blast
qed

lemma stream_inv_chapter_queue [simp]:
  "stream_inv ss (pv\<lparr>chapter_queue := q\<rparr>) = stream_inv ss pv"
  by (simp add: stream_inv_def)

lemma sorted_nth_sle:
  assumes "sorted_wrt (<s) ss" and "i \<le> j" and "j < length ss"
  shows "ss ! i \<le>s ss ! j"
proof (cases "i = j")
  case True
  then show ?thesis by simp
next
  case False
  with assms have "ss ! i <s ss ! j" by (simp add: sorted_wrt_nth_less)
  then show ?thesis by (simp add: word_sle_eq word_sless_alt)
qed

lemma early_offset_le:
  fixes a b c :: "64 word"
  assumes "0 \<le>s a" and "0 \<le>s b" and "a <s b" and "0 \<le>s c"
  shows "a - b \<le>s c"
  using assms by (simp add: word_sle_eq word_sless_alt sint_diff64)

lemma release_offset_ok:
  assumes inv: "stream_inv ss pv" and sorted: "sorted_wrt (<s) ss"
    and nonneg: "\<forall>s \<in> set ss. 0 \<le>s s"
    and known: "sint (areBframes (job pv)) < int (length ss)"
    and k0: "0 \<le> sint k" and p: "p < length ss"
    and lag: "sint k - sint (areBframes (job pv)) \<le> int p"
    and window: "int (length ss) \<le> lookup_seq (sint (areBframes (job pv))) (sint k) + 32"
  shows "walk_render_offset pv k \<le>s ss ! p"
proof -
  let ?d = "sint (areBframes (job pv))"
  from inv have d: "0 < ?d" and dts: "dts_delay pv = ss ! nat ?d"
    using known by (simp_all add: stream_inv_def)
  have nn: "\<And>i. i < length ss \<Longrightarrow> 0 \<le>s ss ! i" using nonneg by simp
  show ?thesis
  proof (cases "sint k < ?d")
    case True
    then have i: "nat (sint k) < nat ?d" "nat ?d < length ss" "nat (sint k) < length ss"
      using k0 known d by linarith+
    from True window have w: "int (length ss) \<le> sint k + 32" by (simp add: lookup_seq_def)
    have "get_frame_start pv (scast k) = ss ! nat (sint k)"
      using registry_lookup [OF inv, of "scast k"] k0 True known w by (simp add: sint_scast64)
    moreover have "ss ! nat (sint k) <s ss ! nat ?d"
      using sorted i by (simp add: sorted_wrt_nth_less)
    ultimately show ?thesis
      using True dts nn [OF i(2)] nn [OF i(3)] nn [OF p]
      by (simp add: walk_render_offset_def word_sless_alt [of k] early_offset_le)
  next
    case False
    let ?q = "k - areBframes (job pv)"
    have q: "sint ?q = sint k - ?d" using k0 d by (simp add: sint_diff32)
    with False lag p window have b: "0 \<le> sint ?q" "sint ?q < int (length ss)"
      "int (length ss) \<le> sint ?q + 32" "nat (sint ?q) \<le> p"
      by (simp_all add: lookup_seq_def)
    have "get_frame_start pv (scast ?q) = ss ! nat (sint ?q)"
      using registry_lookup [OF inv, of "scast ?q"] b by (simp add: sint_scast64)
    with False sorted_nth_sle [OF sorted b(4) p] show ?thesis
      by (simp add: walk_render_offset_def word_sless_alt [of k])
  qed
qed

lemma packet_step_inv:
  assumes inv: "stream_inv ss pv" and conf: "packet_conforms pv pkt"
    and sorted: "sorted_wrt (<s) ss" and nonneg: "\<forall>s \<in> set ss. 0 \<le>s s"
    and step: "packet_step init pv pkt = (pv', out)"
  shows "stream_inv ss pv' \<and> (\<forall>b \<in> set out. dts_le_pts b)"
proof -
  let ?d = "sint (areBframes (job pv))" and ?n = "int (length ss)"
  let ?r = "sint (frameno_out pv)" and ?dl = "delay_list pv"
  let ?k = "?r + int (length ?dl)" and ?p = "sint (pkt_pts pkt)"
  from inv have n: "sint (frameno_in pv) = ?n" and r0: "0 \<le> ?r" and d0: "0 < ?d"
    and held: "\<And>i. i < length ?dl \<Longrightarrow> \<exists>p < length ss.
          s_start (?dl ! i) = ss ! p \<and> ?r + int i - ?d \<le> int p"
    by (simp_all add: stream_inv_def)
  from conf n have c: "0 \<le> ?p" "?p < ?n" "?n \<le> ?p + 32" "?k - ?d \<le> ?p" "?k < 2 ^ 31 - 1"
    and win: "\<And>j. ?d < ?n \<Longrightarrow> ?r \<le> j \<Longrightarrow> j \<le> ?k \<Longrightarrow> ?n \<le> lookup_seq ?d j + 32"
    by (simp_all add: packet_conforms_def Let_def)
  obtain q b where res: "resolve_packet init pv pkt = (q, b)"
    by (cases "resolve_packet init pv pkt")
  let ?pvq = "pv\<lparr>chapter_queue := q\<rparr>"
  from step res have pdl: "process_delay_list ?pvq (Some b) = (pv', out)"
    by (simp add: packet_step_def)
  have "s_start b = get_frame_start pv (pkt_pts pkt)"
    using resolve_packet_stop [OF res] by simp
  with registry_lookup [OF inv c(1,2,3)] have sb: "s_start b = ss ! nat ?p" by simp
  have pb: "nat ?p < length ss" using c(1,2) by linarith
  have nz: "areBframes (job pv) \<noteq> 0" using d0 by auto
  have all_held: "\<exists>p < length ss. s_start ((?dl @ [b]) ! i) = ss ! p \<and> ?r + int i - ?d \<le> int p"
    if "i < length ?dl + 1" for i
  proof (cases "i < length ?dl")
    case True
    with held [of i] show ?thesis by (simp add: nth_append)
  next
    case False
    with that have "i = length ?dl" by simp
    with sb pb c(1,4) show ?thesis by (intro exI [of _ "nat ?p"]) simp
  qed
  show ?thesis
  proof (cases "frameno_in pv \<le>s areBframes (job pv)")
    case True
    with pdl nz have pv': "pv' = ?pvq\<lparr>delay_list := ?dl @ [b]\<rparr>" and out: "out = []"
      by (simp_all add: process_delay_list_def)
    have "stream_inv ss pv'"
      unfolding stream_inv_def pv' using inv all_held
      by (simp add: stream_inv_def)
    with out show ?thesis by simp
  next
    case False
    then have known: "?d < ?n" using n by (simp add: word_sle_eq)
    have ds: "0 <s areBframes (job ?pvq)" using d0 by (simp add: word_sless_alt)
    have kn: "\<not> frameno_in ?pvq \<le>s areBframes (job ?pvq)" using False by simp
    from process_delay_list_release [OF ds kn pdl]
    have len: "length out = length ?dl + 1" and dl': "delay_list pv' = []"
      and fo: "frameno_out pv' = frameno_out pv + of_nat (length out)"
      and el: "\<And>j. j < length out \<Longrightarrow> out ! j = ((?dl @ [b]) ! j)
                      \<lparr>s_renderOffset := walk_render_offset pv (frameno_out pv + of_nat j)\<rparr>"
      by (simp_all add: walk_render_offset_def get_frame_start_def)
    from process_delay_list_static [OF pdl]
    have st: "job pv' = job pv" "frameno_in pv' = frameno_in pv" "dts_delay pv' = dts_delay pv"
      "frame_info pv' = frame_info pv" by simp_all
    have "sint (frameno_out pv + of_nat (length ?dl + 1)) = ?r + int (length ?dl + 1)"
      by (rule sint_add_nat32) (use c(5) r0 in simp_all)
    then have "sint (frameno_out pv') = ?k + 1"
      unfolding fo len by simp
    then have inv': "stream_inv ss pv'"
      using inv r0 by (simp add: stream_inv_def st dl')
    have "dts_le_pts (out ! j)" if j: "j < length out" for j
    proof -
      let ?kw = "frameno_out pv + of_nat j"
      from j len have jl: "j < length ?dl + 1" by simp
      have sk: "sint ?kw = ?r + int j"
        by (rule sint_add_nat32) (use jl c(5) r0 in simp_all)
      from all_held [OF jl] obtain p where p: "p < length ss"
        "s_start ((?dl @ [b]) ! j) = ss ! p" "?r + int j - ?d \<le> int p" by blast
      have w: "?n \<le> lookup_seq ?d (sint ?kw) + 32"
        using win [OF known, of "?r + int j"] jl by (simp add: sk)
      have "walk_render_offset pv ?kw \<le>s ss ! p"
        by (rule release_offset_ok [OF inv sorted nonneg known _ p(1) _ w])
          (use sk r0 p(3) in simp_all)
      with el [OF j] p(2) show ?thesis by (simp add: dts_le_pts_def)
    qed
    then have "\<forall>b \<in> set out. dts_le_pts b" by (auto simp: in_set_conv_nth)
    with inv' show ?thesis by simp
  qed
qed

lemma get_packets_inv:
  "get_packets init pv list script = Some (pv', list') \<Longrightarrow>
   stream_inv ss pv \<Longrightarrow> script_conforms init pv script \<Longrightarrow>
   sorted_wrt (<s) ss \<Longrightarrow> \<forall>s \<in> set ss. 0 \<le>s s \<Longrightarrow>
   \<forall>b \<in> set list. dts_le_pts b \<Longrightarrow>
     stream_inv ss pv' \<and> (\<forall>b \<in> set list'. dts_le_pts b)"
proof (induction init pv list script arbitrary: pv' list' rule: get_packets.induct)
  case (4 init pv list ret pkt rs)
  obtain pv1 out1 where s: "packet_step init pv pkt = (pv1, out1)"
    by (cases "packet_step init pv pkt")
  from "4.prems"(3) s have c: "packet_conforms pv pkt" "script_conforms init pv1 rs" by simp_all
  from packet_step_inv [OF "4.prems"(2) c(1) "4.prems"(4,5) s]
  have i1: "stream_inv ss pv1" and o1: "\<forall>b \<in> set out1. dts_le_pts b" by simp_all
  from "4.prems"(1) s have g: "get_packets init pv1 (list @ out1) rs = Some (pv', list')" by simp
  from o1 "4.prems"(6) have l1: "\<forall>b \<in> set (list @ out1). dts_le_pts b" by auto
  from "4.IH" [OF s [symmetric] refl g i1 c(2) "4.prems"(4,5) l1] show ?case .
qed simp_all

lemma run_inv:
  assumes "run init pv calls = Some (pv', out)" and "stream_inv ss pv"
    and "stream_conforms init pv calls"
    and "sorted_wrt (<s) (ss @ map s_start (submitted calls))"
    and "\<forall>s \<in> set (ss @ map s_start (submitted calls)). 0 \<le>s s"
    and "int (length ss) + int (length (submitted calls)) < 2 ^ 31"
  shows "\<forall>b \<in> set out. dts_le_pts b"
  using assms
proof (induction calls arbitrary: pv ss out)
  case Nil
  then show ?case by simp
next
  case (Cons c cs)
  from Cons.prems(4) have sorted: "sorted_wrt (<s) ss" by (simp add: sorted_wrt_append)
  from Cons.prems(5) have nonneg: "\<forall>s \<in> set ss. 0 \<le>s s" by simp
  show ?case
  proof (cases c)
    case (Submit in_buf ret script)
    let ?ss' = "ss @ [s_start in_buf]"
    from Cons.prems(1) [unfolded Submit] obtain pv4 frame pv1 out1 out2 where
      s: "submit_frame pv in_buf = (pv4, frame)"
      and g: "if ret <s 0 then pv1 = pv4 \<and> out1 = []
              else get_packets init pv4 [] script = Some (pv1, out1)"
      and r: "run init pv1 cs = Some (pv', out2)" and o: "out = out1 @ out2"
      by (rule run_Submit)
    from Cons.prems(6) Submit have room: "int (length ss) < 2 ^ 31 - 1" by simp
    from submit_frame_inv [OF Cons.prems(2) room, of in_buf] s
    have i4: "stream_inv ?ss' pv4" by simp
    from Cons.prems(4,5,6) Submit
    have fut: "sorted_wrt (<s) (?ss' @ map s_start (submitted cs))"
      "\<forall>s \<in> set (?ss' @ map s_start (submitted cs)). 0 \<le>s s"
      "int (length ?ss') + int (length (submitted cs)) < 2 ^ 31"
      by simp_all
    from fut(1) have sorted': "sorted_wrt (<s) ?ss'" by (simp only: sorted_wrt_append) simp
    from fut(2) have nonneg': "\<forall>s \<in> set ?ss'. 0 \<le>s s" by simp
    have step: "stream_inv ?ss' pv1 \<and> (\<forall>b \<in> set out1. dts_le_pts b)
        \<and> stream_conforms init pv1 cs"
    proof (cases "ret <s 0")
      case True
      with g i4 Cons.prems(3) s Submit show ?thesis by simp
    next
      case False
      with g have g': "get_packets init pv4 [] script = Some (pv1, out1)" by simp
      from Cons.prems(3) s Submit False g'
      have sc: "script_conforms init pv4 script" "stream_conforms init pv1 cs" by simp_all
      from get_packets_inv [OF g' i4 sc(1) sorted' nonneg'] sc(2) show ?thesis by simp
    qed
    then have "\<forall>b \<in> set out2. dts_le_pts b"
      using Cons.IH [OF r _ _ fut] by simp
    with step o show ?thesis by auto
  next
    case (Finish script)
    from Cons.prems(1) [unfolded Finish] obtain pv1 out1 out2 where
      g: "get_packets init pv [] script = Some (pv1, out1)"
      and r: "run init pv1 cs = Some (pv', out2)" and o: "out = out1 @ out2"
      by (rule run_Finish)
    from Cons.prems(3) Finish g
    have sc: "script_conforms init pv script" "stream_conforms init pv1 cs" by simp_all
    from get_packets_inv [OF g Cons.prems(2) sc(1) sorted nonneg]
    have step: "stream_inv ss pv1" "\<forall>b \<in> set out1. dts_le_pts b" by simp_all
    from Cons.prems(4,5,6) Finish
    have fut: "sorted_wrt (<s) (ss @ map s_start (submitted cs))"
      "\<forall>s \<in> set (ss @ map s_start (submitted cs)). 0 \<le>s s"
      "int (length ss) + int (length (submitted cs)) < 2 ^ 31"
      by simp_all
    from Cons.IH [OF r step(1) sc(2) fut] step(2) o show ?thesis by auto
  qed
qed

lemma fresh_stream_inv:
  assumes "0 < sint (areBframes (job pv))" and "frameno_in pv = 0" and "frameno_out pv = 0"
    and "delay_list pv = []"
  shows "stream_inv [] pv"
  using assms by (simp add: stream_inv_def)

text \<open>
  Where the bound does hold: on a fresh stream with reorder depth \<open>d \<ge> 0\<close>, fewer than
  \<open>2 ^ 31\<close> frames, and start times that are strictly increasing and not negative,
  every buffer handed to the caller has \<open>renderOffset \<le> start\<close>, if for \<open>d > 0\<close> the
  encoder's packets conform (\<open>stream_conforms\<close>).
\<close>

lemma render_offset_le_start:
  assumes depth: "0 \<le>s areBframes (job pv)"
    and fresh: "frameno_in pv = 0" "frameno_out pv = 0" "delay_list pv = []"
    and increasing: "sorted_wrt (<s) (map s_start (submitted calls))"
    and nonneg: "\<forall>f \<in> set (submitted calls). 0 \<le>s s_start f"
    and count: "length (submitted calls) < 2 ^ 31"
    and encoder: "areBframes (job pv) \<noteq> 0 \<longrightarrow> stream_conforms init pv calls"
    and run: "run init pv calls = Some (pv', out)"
  shows "\<forall>b \<in> set out. s_renderOffset b \<le>s s_start b"
proof (cases "areBframes (job pv) = 0")
  case True
  from run_depth0 [OF True run] show ?thesis by (simp add: word_sle_eq)
next
  case False
  with depth have d: "0 < sint (areBframes (job pv))"
    by (simp add: word_sle_eq sint_inj32 [of "areBframes (job pv)" 0])
  have c: "int (length (submitted calls)) < 2 ^ 31" using count
    by (metis of_nat_less_iff of_nat_numeral of_nat_power)
  from False encoder have e: "stream_conforms init pv calls" by simp
  have "\<forall>b \<in> set out. dts_le_pts b"
    by (rule run_inv [OF run fresh_stream_inv [OF d fresh] e])
      (use increasing nonneg c in simp_all)
  then show ?thesis by (simp add: dts_le_pts_def)
qed

text \<open>
  C1 (render offset \<le> start for every released packet, for any reorder depth and any
  strictly increasing starts). The comment on \<open>process_delay_list\<close> promises
  \<open>DTS <= PTS\<close> for presentation times in increasing order, with the sequence
  \<open>pts0 - delay, pts1 - delay, ...\<close>. \<open>compute_dts_offset\<close> takes the start of frame
  \<open>d\<close> itself as the delay, not its distance from the start of frame 0, so the bound
  depends on where the time stamps begin. With depth 1, the strictly increasing starts
  \<open>-6000\<close>, \<open>-3000\<close> and an encoder that returns the packets in order, one per frame,
  the first packet is released with render offset \<open>-6000 - (-3000) = -3000\<close>, above
  its start \<open>-6000\<close>.
\<close>

theorem render_offset_exceeds_start:
  "sorted_wrt (<s) (map s_start (submitted negative_calls))
   \<and> map_option (map offsets \<circ> snd) (run zero_buffer (init_private (job_of 1 0)) negative_calls)
       = Some [(- 6000, - 3000), (- 3000, - 6000)]
   \<and> \<not> (- 3000 :: int64_t) \<le>s - 6000"
  by (simp add: negative_calls_def offsets_def demo_defs model_defs)

text \<open>The encoder of this stream conforms; only the sign of the starts is unusual.\<close>

lemma negative_calls_conform:
  "stream_conforms zero_buffer (init_private (job_of 1 0)) negative_calls"
  by code_simp

text \<open>
  With starts that are not negative the bound still needs the encoder to reorder by no
  more than the depth: with depth 1 and the packets of frames 0, 3, 2, 1 in this order,
  the last packet has start 3000 and render offset 6000.
\<close>

lemma deeper_reorder_example:
  "sorted_wrt (<s) (map s_start (submitted deep_reorder_calls))
   \<and> map_option (map offsets \<circ> snd) (run zero_buffer (init_private (job_of 1 0)) deep_reorder_calls)
       = Some [(0, - 3000), (9000, 0), (6000, 3000), (3000, 6000)]"
  by code_simp

lemma reordered_conforms:
  "stream_conforms zero_buffer (init_private (job_of 1 0)) reordered_calls"
  by code_simp

lemma render_offset_le_start_example:
  "0 \<le>s areBframes (job (init_private (job_of 1 0)))
   \<and> sorted_wrt (<s) (map s_start (submitted reordered_calls))
   \<and> length (submitted reordered_calls) < 2 ^ 31
   \<and> stream_conforms zero_buffer (init_private (job_of 1 0)) reordered_calls
   \<and> map_option (map offsets \<circ> snd) (run zero_buffer (init_private (job_of 1 0)) reordered_calls)
       = Some [(0, - 3000), (6000, 0), (3000, 3000)]"
proof -
  let ?pv = "init_private (job_of 1 0)"
  have h1: "0 \<le>s areBframes (job ?pv)" by (simp add: demo_defs)
  have h2: "frameno_in ?pv = 0" "frameno_out ?pv = 0" "delay_list ?pv = []"
    by (simp_all add: demo_defs)
  have h3: "sorted_wrt (<s) (map s_start (submitted reordered_calls))"
    by (simp add: reordered_calls_def demo_defs)
  have h4: "\<forall>f \<in> set (submitted reordered_calls). 0 \<le>s s_start f"
    by (simp add: reordered_calls_def demo_defs)
  have h5: "length (submitted reordered_calls) < 2 ^ 31" by (simp add: reordered_calls_def)
  have h6: "stream_conforms zero_buffer ?pv reordered_calls" by code_simp
  then have h6': "areBframes (job ?pv) \<noteq> 0 \<longrightarrow> stream_conforms zero_buffer ?pv reordered_calls"
    by simp
  have c: "map_option (map offsets \<circ> snd) (run zero_buffer ?pv reordered_calls)
       = Some [(0, - 3000), (6000, 0), (3000, 3000)]"
    by code_simp
  then obtain pv' out where r: "run zero_buffer ?pv reordered_calls = Some (pv', out)"
    by auto
  from render_offset_le_start [OF h1 h2 h3 h4 h5 h6' r] h1 h3 h5 h6 c
  show ?thesis by simp
qed


end
